theory Spec2Isabelle
  imports Complex_Main
begin

section \<open>Multi-armed bandit policies of \<open>mab.py\<close>\<close>

text \<open>
  The module defines five classes: \<open>MAB\<close> (sample average), \<open>UCB1(MAB)\<close>, \<open>TS\<close>
  (Thompson sampling), \<open>SoftMax(MAB)\<close> and \<open>CMAB\<close> (one \<open>UCB1\<close> per context).
  Each class is a record of its fields, each method a function from the object's state
  to its result; a method that assigns to fields returns the new state.

  Numbers: counters are Python integers (\<open>int\<close>). Rewards, sums, quotients and the
  values of \<open>math.log\<close> and \<open>math.sqrt\<close> are real numbers (\<open>real\<close>), computed
  exactly: the rounding of a float result is left out. Two effects of floats change what
  a method does, and are in the model: the range of \<open>math.exp\<close> (\<open>OverflowError\<close>, and
  underflow to \<open>0.0\<close>) in \<open>SoftMax\<close>, and the rounding of the sums of
  \<open>TS.update_reward\<close> on float rewards (\<open>TS_update_reward_float\<close>,
  \<open>TS_get_reward_float\<close>). Infinities and NaN are outside the model.
\<close>

subsection \<open>Dictionaries, exceptions, calls\<close>

text \<open>
  A Python \<open>dict\<close> iterates in insertion order, and two of the methods depend on that
  order, so a dictionary is an association list in insertion order. \<open>d[k] = v\<close>
  overwrites in place when \<open>k\<close> is present and appends otherwise.
\<close>

type_synonym ('k, 'v) dict = "('k \<times> 'v) list"

primrec setitem :: "('k, 'v) dict \<Rightarrow> 'k \<Rightarrow> 'v \<Rightarrow> ('k, 'v) dict" where
  "setitem [] k v = [(k, v)]"
| "setitem (p # d) k v = (if fst p = k then (k, v) # d else p # setitem d k v)"

text \<open>\<open>k in d\<close>\<close>

definition contains :: "('k, 'v) dict \<Rightarrow> 'k \<Rightarrow> bool" where
  "contains d k = (map_of d k \<noteq> None)"

datatype py_error = KeyError | ZeroDivisionError | ValueError | OverflowError

text \<open>
  A method that assigns to fields and then raises leaves the assignments made so far
  in the object. \<open>Done s\<close> is a normal return with the object in state \<open>s\<close>;
  \<open>Raised e s\<close> is the exception \<open>e\<close>, with the object left in state \<open>s\<close>.
\<close>

datatype 's outcome = Done 's | Raised py_error 's

primrec state_of :: "'s outcome \<Rightarrow> 's" where
  "state_of (Done s) = s"
| "state_of (Raised e s) = s"

text \<open>
  A caller's sequence of calls of one method on one object. \<open>run\<close> is a script
  that the first exception ends; \<open>calls\<close> is the object's state after every call of
  the sequence has been made, by a caller that catches what they raise.
  \<open>run f s cs = Done (calls f s cs)\<close> says that no call of the sequence raised.
\<close>

primrec run :: "('s \<Rightarrow> 'c \<Rightarrow> 's outcome) \<Rightarrow> 's \<Rightarrow> 'c list \<Rightarrow> 's outcome" where
  "run f s [] = Done s"
| "run f s (c # cs) = (case f s c of Done s' \<Rightarrow> run f s' cs | Raised e s' \<Rightarrow> Raised e s')"

primrec calls :: "('s \<Rightarrow> 'c \<Rightarrow> 's outcome) \<Rightarrow> 's \<Rightarrow> 'c list \<Rightarrow> 's" where
  "calls f s [] = s"
| "calls f s (c # cs) = calls f (state_of (f s c)) cs"

text \<open>The rewards that a sequence of \<open>(arm, reward)\<close> updates passes for one arm, in order.\<close>

definition rewards_of :: "'a \<Rightarrow> ('a \<times> real) list \<Rightarrow> real list" where
  "rewards_of arm us = map snd (filter (\<lambda>u. fst u = arm) us)"

subsection \<open>class MAB\<close>

record 'a mab =
  total_rewards :: "('a, real) dict"
  total_count :: "('a, int) dict"
  average_reward :: "('a, real) dict"

text \<open>\<open>MAB.__init__\<close>\<close>

definition MAB_init :: "'a mab" where
  "MAB_init = \<lparr>total_rewards = [], total_count = [], average_reward = []\<rparr>"

text \<open>
  \<open>MAB.update_reward\<close>. \<open>self.total_count[arm] += 1\<close> raises \<open>KeyError\<close> when the
  arm is in \<open>total_rewards\<close> but not in \<open>total_count\<close>; after the guard the arm is in
  \<open>total_rewards\<close>, whose \<open>+=\<close> is written with the same lookup. The last line divides
  the two values just stored and raises \<open>ZeroDivisionError\<close> on a zero count.
  The functions of this class are defined on the record scheme, so the subclasses
  inherit them.
\<close>

definition MAB_update_reward ::
  "('a, 'z) mab_scheme \<Rightarrow> 'a \<Rightarrow> real \<Rightarrow> ('a, 'z) mab_scheme outcome" where
  "MAB_update_reward s arm reward =
    (let s1 = (if \<not> contains (total_rewards s) arm
               then s\<lparr>total_rewards := setitem (total_rewards s) arm 0,
                      total_count := setitem (total_count s) arm 0\<rparr>
               else s)
     in case map_of (total_count s1) arm of
          None \<Rightarrow> Raised KeyError s1
        | Some c \<Rightarrow>
           (let s2 = s1\<lparr>total_count := setitem (total_count s1) arm (c + 1)\<rparr>
            in case map_of (total_rewards s2) arm of
                 None \<Rightarrow> Raised KeyError s2
               | Some t \<Rightarrow>
                  (let s3 = s2\<lparr>total_rewards := setitem (total_rewards s2) arm (t + reward)\<rparr>
                   in if c + 1 = 0 then Raised ZeroDivisionError s3
                      else Done (s3\<lparr>average_reward :=
                             setitem (average_reward s3) arm ((t + reward) / real_of_int (c + 1))\<rparr>))))"

text \<open>\<open>MAB.get_reward\<close>\<close>

definition MAB_get_reward :: "('a, 'z) mab_scheme \<Rightarrow> 'a \<Rightarrow> real" where
  "MAB_get_reward s arm =
    (case map_of (average_reward s) arm of None \<Rightarrow> 0 | Some v \<Rightarrow> v)"

text \<open>\<open>MAB.get_arm_count\<close>\<close>

definition MAB_get_arm_count :: "('a, 'z) mab_scheme \<Rightarrow> 'a \<Rightarrow> int" where
  "MAB_get_arm_count s arm =
    (case map_of (total_count s) arm of None \<Rightarrow> 0 | Some c \<Rightarrow> c)"

text \<open>
  Python's \<open>max(items, key=itemgetter(1))\<close> on a non-empty sequence: the running
  maximum is the first item, and a later item replaces it only when its key is
  strictly greater.
\<close>

primrec max_item :: "('k \<times> real) \<Rightarrow> ('k, real) dict \<Rightarrow> ('k \<times> real)" where
  "max_item m [] = m"
| "max_item m (p # d) = max_item (if snd p > snd m then p else m) d"

text \<open>
  \<open>MAB.get_best_arm\<close>. The result is the tuple \<open>(None, None)\<close> or an item of
  \<open>average_reward\<close>; each component is an option, \<open>None\<close> for Python's \<open>None\<close>.
\<close>

definition MAB_get_best_arm :: "('a, 'z) mab_scheme \<Rightarrow> 'a option \<times> real option" where
  "MAB_get_best_arm s =
    (case average_reward s of
       [] \<Rightarrow> (None, None)
     | p # d \<Rightarrow> (let m = max_item p d in (Some (fst m), Some (snd m))))"

text \<open>A sequence of \<open>update_reward\<close> calls on a \<open>MAB\<close> object.\<close>

fun MAB_step :: "('a, 'z) mab_scheme \<Rightarrow> 'a \<times> real \<Rightarrow> ('a, 'z) mab_scheme outcome" where
  "MAB_step s (arm, reward) = MAB_update_reward s arm reward"

subsection \<open>class UCB1(MAB)\<close>

record 'a ucb1 = "'a mab" +
  beta :: real
  overall_total_count :: int
  ucb :: real

text \<open>\<open>UCB1.__init__(beta)\<close>; the default is \<open>beta = 1.0\<close>.\<close>

definition UCB1_init :: "real \<Rightarrow> 'a ucb1" where
  "UCB1_init b =
    \<lparr>total_rewards = [], total_count = [], average_reward = [],
     beta = b, overall_total_count = 0, ucb = 0\<rparr>"

text \<open>
  \<open>UCB1.update_reward\<close>. Both counters are incremented before the bonus is computed.
  \<open>math.log\<close> raises \<open>ValueError\<close> on a count that is not positive (so the division by the
  count that follows never sees zero), and \<open>math.sqrt\<close> raises \<open>ValueError\<close> on a negative
  argument. The last line divides the two values just stored.
\<close>

definition UCB1_update_reward ::
  "('a, 'z) ucb1_scheme \<Rightarrow> 'a \<Rightarrow> real \<Rightarrow> ('a, 'z) ucb1_scheme outcome" where
  "UCB1_update_reward s arm reward =
    (let s1 = (if \<not> contains (total_rewards s) arm
               then s\<lparr>total_rewards := setitem (total_rewards s) arm 0,
                      total_count := setitem (total_count s) arm 0\<rparr>
               else s)
     in case map_of (total_count s1) arm of
          None \<Rightarrow> Raised KeyError s1
        | Some c \<Rightarrow>
           (let n = c + 1;
                s2 = s1\<lparr>total_count := setitem (total_count s1) arm n\<rparr>;
                s3 = s2\<lparr>overall_total_count := overall_total_count s2 + 1\<rparr>
            in if n \<le> 0 then Raised ValueError s3
               else
                (let x = 2 * beta s3 * ln (real_of_int n) / real_of_int n
                 in if x < 0 then Raised ValueError s3
                    else
                     (let s4 = s3\<lparr>ucb := sqrt x\<rparr>;
                          ucb_reward = reward + ucb s4
                      in case map_of (total_rewards s4) arm of
                           None \<Rightarrow> Raised KeyError s4
                         | Some t \<Rightarrow>
                            (let s5 = s4\<lparr>total_rewards :=
                                        setitem (total_rewards s4) arm (t + ucb_reward)\<rparr>
                             in Done (s5\<lparr>average_reward :=
                                  setitem (average_reward s5) arm
                                    ((t + ucb_reward) / real_of_int n)\<rparr>))))))"

text \<open>\<open>UCB1.get_last_ucb\<close>\<close>

definition UCB1_get_last_ucb :: "('a, 'z) ucb1_scheme \<Rightarrow> real" where
  "UCB1_get_last_ucb s = ucb s"

text \<open>A sequence of \<open>update_reward\<close> calls on a \<open>UCB1\<close> object.\<close>

fun UCB1_step :: "('a, 'z) ucb1_scheme \<Rightarrow> 'a \<times> real \<Rightarrow> ('a, 'z) ucb1_scheme outcome" where
  "UCB1_step s (arm, reward) = UCB1_update_reward s arm reward"

subsection \<open>class TS\<close>

text \<open>
  The fields \<open>total_count\<close> and \<open>beta\<close> of \<open>TS\<close> carry the suffix \<open>_ts\<close>: the names
  are those of the fields of \<open>MAB\<close> and \<open>UCB1\<close>.
\<close>

record 'a ts =
  total_count_ts :: "('a, int) dict"
  alpha :: "('a, real) dict"
  beta_ts :: "('a, real) dict"
  last_drawn :: "('a, real) dict"

text \<open>\<open>TS.__init__\<close>\<close>

definition TS_init :: "'a ts" where
  "TS_init = \<lparr>total_count_ts = [], alpha = [], beta_ts = [], last_drawn = []\<rparr>"

text \<open>\<open>TS.update_reward\<close>; no check of the reward.\<close>

definition TS_update_reward :: "'a ts \<Rightarrow> 'a \<Rightarrow> real \<Rightarrow> 'a ts outcome" where
  "TS_update_reward s arm reward =
    (let s1 = (if \<not> contains (total_count_ts s) arm
               then s\<lparr>alpha := setitem (alpha s) arm 1,
                      beta_ts := setitem (beta_ts s) arm 1,
                      total_count_ts := setitem (total_count_ts s) arm 0,
                      last_drawn := setitem (last_drawn s) arm 0\<rparr>
               else s)
     in case map_of (total_count_ts s1) arm of
          None \<Rightarrow> Raised KeyError s1
        | Some c \<Rightarrow>
           (let s2 = s1\<lparr>total_count_ts := setitem (total_count_ts s1) arm (c + 1)\<rparr>
            in case map_of (alpha s2) arm of
                 None \<Rightarrow> Raised KeyError s2
               | Some a \<Rightarrow>
                  (let s3 = s2\<lparr>alpha := setitem (alpha s2) arm (a + reward)\<rparr>
                   in case map_of (beta_ts s3) arm of
                        None \<Rightarrow> Raised KeyError s3
                      | Some b \<Rightarrow>
                         Done (s3\<lparr>beta_ts := setitem (beta_ts s3) arm (b + (1 - reward))\<rparr>))))"

text \<open>
  \<open>TS.get_reward\<close>: a pure read; \<open>Inl\<close> is the exception it raises. Python reads
  \<open>alpha - 1 + beta - 1\<close> as \<open>((alpha - 1) + beta) - 1\<close>.
\<close>

definition TS_get_reward :: "'a ts \<Rightarrow> 'a \<Rightarrow> py_error + real" where
  "TS_get_reward s arm =
    (if \<not> contains (total_count_ts s) arm then Inr 0
     else case map_of (alpha s) arm of
            None \<Rightarrow> Inl KeyError
          | Some a \<Rightarrow>
             (case map_of (beta_ts s) arm of
                None \<Rightarrow> Inl KeyError
              | Some b \<Rightarrow>
                 if a - 1 + b - 1 = 0 then Inl ZeroDivisionError
                 else Inr ((a - 1) / (a - 1 + b - 1))))"

text \<open>\<open>TS.get_arm_count\<close>\<close>

definition TS_get_arm_count :: "'a ts \<Rightarrow> 'a \<Rightarrow> int" where
  "TS_get_arm_count s arm =
    (case map_of (total_count_ts s) arm of None \<Rightarrow> 0 | Some c \<Rightarrow> c)"

text \<open>
  \<open>random.betavariate\<close> is the library's: it is a parameter here, a function of the
  generator's state \<open>g\<close> and the two shape parameters that raises or gives a sample and
  the generator's next state. Which distribution the samples follow, and whether they are
  independent, is not modelled.
\<close>

type_synonym 'g sampler = "'g \<Rightarrow> real \<Rightarrow> real \<Rightarrow> py_error + (real \<times> 'g)"

text \<open>
  The loop of \<open>TS.get_best_arm\<close> over the keys of \<open>total_count\<close>. Its state is the
  object, the generator and the local \<open>best_arm\<close>, a pair of \<open>best_arm["arm"]\<close> and
  \<open>best_arm["value"]\<close>.
\<close>

primrec TS_draw_loop ::
  "'g sampler \<Rightarrow> 'a list \<Rightarrow> 'a ts \<times> 'g \<times> ('a option \<times> real)
    \<Rightarrow> ('a ts \<times> 'g \<times> ('a option \<times> real)) outcome" where
  "TS_draw_loop betavariate [] st = Done st"
| "TS_draw_loop betavariate (arm # arms) st =
    (case st of (s, g, best_arm) \<Rightarrow>
      (case map_of (alpha s) arm of
         None \<Rightarrow> Raised KeyError st
       | Some a \<Rightarrow>
          (case map_of (beta_ts s) arm of
             None \<Rightarrow> Raised KeyError st
           | Some b \<Rightarrow>
              (case betavariate g a b of
                 Inl e \<Rightarrow> Raised e st
               | Inr (x, g') \<Rightarrow>
                  TS_draw_loop betavariate arms
                    (s\<lparr>last_drawn := setitem (last_drawn s) arm x\<rparr>, g',
                     if x \<ge> snd best_arm then (Some arm, x) else best_arm)))))"

text \<open>
  \<open>TS.get_best_arm\<close>: what the call gives (the exception, or the tuple), and the object
  and the generator after it.
\<close>

definition TS_get_best_arm ::
  "'g sampler \<Rightarrow> 'g \<Rightarrow> 'a ts \<Rightarrow> (py_error + ('a option \<times> real option)) \<times> 'a ts \<times> 'g" where
  "TS_get_best_arm betavariate g s =
    (case TS_draw_loop betavariate (map fst (total_count_ts s)) (s, g, (None, 0)) of
       Raised e (s', g', best_arm) \<Rightarrow> (Inl e, s', g')
     | Done (s', g', best_arm) \<Rightarrow>
        (case fst best_arm of
           None \<Rightarrow> (Inr (None, None), s', g')
         | Some arm \<Rightarrow> (Inr (Some arm, Some (snd best_arm)), s', g')))"

text \<open>\<open>TS.get_last_drawn_value\<close>\<close>

definition TS_get_last_drawn_value :: "'a ts \<Rightarrow> 'a \<Rightarrow> real" where
  "TS_get_last_drawn_value s arm =
    (case map_of (last_drawn s) arm of None \<Rightarrow> 0 | Some x \<Rightarrow> x)"

text \<open>
  The two methods of \<open>TS\<close> that assign to fields, as calls on an object and a generator.
\<close>

datatype 'a ts_call = Update_reward 'a real | Get_best_arm

primrec TS_call :: "'g sampler \<Rightarrow> 'a ts \<times> 'g \<Rightarrow> 'a ts_call \<Rightarrow> ('a ts \<times> 'g) outcome" where
  "TS_call betavariate st (Update_reward arm reward) =
    (case TS_update_reward (fst st) arm reward of
       Done s' \<Rightarrow> Done (s', snd st)
     | Raised e s' \<Rightarrow> Raised e (s', snd st))"
| "TS_call betavariate st Get_best_arm =
    (case TS_get_best_arm betavariate (snd st) (fst st) of
       (Inl e, st') \<Rightarrow> Raised e st'
     | (Inr r, st') \<Rightarrow> Done st')"

text \<open>The rewards that a sequence of calls passes to \<open>update_reward\<close> for one arm.\<close>

primrec ts_rewards_of :: "'a \<Rightarrow> 'a ts_call list \<Rightarrow> real list" where
  "ts_rewards_of arm [] = []"
| "ts_rewards_of arm (c # cs) =
    (case c of
       Update_reward a r \<Rightarrow> (if a = arm then r # ts_rewards_of arm cs else ts_rewards_of arm cs)
     | Get_best_arm \<Rightarrow> ts_rewards_of arm cs)"






subsection \<open>class SoftMax(MAB)\<close>

record 'a softmax = "'a mab" +
  tau :: real

text \<open>\<open>SoftMax.__init__(tau)\<close>; the default is \<open>tau = 1.0\<close>.\<close>

definition SoftMax_init :: "real \<Rightarrow> 'a softmax" where
  "SoftMax_init t = \<lparr>total_rewards = [], total_count = [], average_reward = [], tau = t\<rparr>"

text \<open>
  \<open>random.choices(population, weights)[0]\<close> is the library's: a parameter, a function of
  the generator's state and the two lists that raises or gives the chosen element and the
  generator's next state.
\<close>

type_synonym ('g, 'a) chooser = "'g \<Rightarrow> 'a list \<Rightarrow> real list \<Rightarrow> py_error + ('a \<times> 'g)"

text \<open>
  \<open>math.exp\<close>. The exponential of a float is a float: where it rounds to infinity,
  \<open>math.exp\<close> raises \<open>OverflowError\<close>, and where it rounds to zero it returns \<open>0.0\<close>.
  \<open>overflow_threshold\<close> is the midpoint between the largest double and \<open>2 ** 1024\<close>,
  \<open>underflow_threshold\<close> is half the smallest positive double. Between the two the
  rounding of the value is left out.
\<close>

definition overflow_threshold :: real where
  "overflow_threshold = 2 ^ 1024 - 2 ^ 970"

definition underflow_threshold :: real where
  "underflow_threshold = 1 / 2 ^ 1075"

definition math_exp :: "real \<Rightarrow> py_error + real" where
  "math_exp x =
    (if overflow_threshold \<le> exp x then Inl OverflowError
     else if exp x \<le> underflow_threshold then Inr 0
     else Inr (exp x))"

text \<open>
  The list comprehension \<open>[math.exp(reward/self.tau) for reward in ...]\<close>: the division
  raises on \<open>tau = 0\<close>, and \<open>math.exp\<close> may raise, at the first item already.
\<close>

primrec exp_weights :: "real \<Rightarrow> real list \<Rightarrow> py_error + real list" where
  "exp_weights t [] = Inr []"
| "exp_weights t (reward # rewards) =
    (if t = 0 then Inl ZeroDivisionError
     else case math_exp (reward / t) of
            Inl e \<Rightarrow> Inl e
          | Inr w \<Rightarrow>
             (case exp_weights t rewards of
                Inl e \<Rightarrow> Inl e
              | Inr ws \<Rightarrow> Inr (w # ws)))"

text \<open>
  \<open>SoftMax.get_best_arm\<close>: no field is assigned; the result is what the call gives and the
  generator after it.
\<close>

definition SoftMax_get_best_arm ::
  "('g, 'a) chooser \<Rightarrow> 'g \<Rightarrow> ('a, 'z) softmax_scheme
    \<Rightarrow> (py_error + ('a option \<times> real option)) \<times> 'g" where
  "SoftMax_get_best_arm choices g s =
    (if length (average_reward s) = 0 then (Inr (None, None), g)
     else
      (let arm_list = map fst (average_reward s)
       in case exp_weights (tau s) (map snd (average_reward s)) of
            Inl e \<Rightarrow> (Inl e, g)
          | Inr arm_weight \<Rightarrow>
             (case choices g arm_list arm_weight of
                Inl e \<Rightarrow> (Inl e, g)
              | Inr (choice, g') \<Rightarrow>
                 (case map_of (average_reward s) choice of
                    None \<Rightarrow> (Inl KeyError, g')
                  | Some v \<Rightarrow> (Inr (Some choice, Some v), g')))))"






subsection \<open>class CMAB\<close>

record ('c, 'a) cmab =
  mab :: "('c, 'a ucb1) dict"

text \<open>\<open>CMAB.__init__\<close>\<close>

definition CMAB_init :: "('c, 'a) cmab" where
  "CMAB_init = \<lparr>mab = []\<rparr>"

text \<open>
  \<open>CMAB.update_reward\<close>. The object stored for a context is made by \<open>UCB1()\<close> and held
  by this dictionary only, so the update in place of that object is the update of this
  entry.
\<close>

definition CMAB_update_reward ::
  "('c, 'a) cmab \<Rightarrow> 'a \<Rightarrow> real \<Rightarrow> 'c \<Rightarrow> ('c, 'a) cmab outcome" where
  "CMAB_update_reward s arm reward context =
    (let s1 = (if \<not> contains (mab s) context
               then s\<lparr>mab := setitem (mab s) context (UCB1_init 1)\<rparr>
               else s)
     in case map_of (mab s1) context of
          None \<Rightarrow> Raised KeyError s1
        | Some m \<Rightarrow>
           (case UCB1_update_reward m arm reward of
              Done m' \<Rightarrow> Done (s1\<lparr>mab := setitem (mab s1) context m'\<rparr>)
            | Raised e m' \<Rightarrow> Raised e (s1\<lparr>mab := setitem (mab s1) context m'\<rparr>)))"

text \<open>\<open>CMAB.get_reward\<close>\<close>

definition CMAB_get_reward :: "('c, 'a) cmab \<Rightarrow> 'a \<Rightarrow> 'c \<Rightarrow> real" where
  "CMAB_get_reward s arm context =
    (case map_of (mab s) context of
       None \<Rightarrow> 0
     | Some m \<Rightarrow> MAB_get_reward m arm)"

text \<open>\<open>CMAB.get_best_arm\<close>\<close>

definition CMAB_get_best_arm :: "('c, 'a) cmab \<Rightarrow> 'c \<Rightarrow> 'a option \<times> real option" where
  "CMAB_get_best_arm s context =
    (case map_of (mab s) context of
       None \<Rightarrow> (None, None)
     | Some m \<Rightarrow> MAB_get_best_arm m)"

text \<open>A sequence of \<open>update_reward\<close> calls on a \<open>CMAB\<close> object.\<close>

fun CMAB_step :: "('c, 'a) cmab \<Rightarrow> 'a \<times> real \<times> 'c \<Rightarrow> ('c, 'a) cmab outcome" where
  "CMAB_step s (arm, reward, context) = CMAB_update_reward s arm reward context"

section \<open>Invariants of the reachable states\<close>

text \<open>
  What the dictionaries of a \<open>MAB\<close> object (or of a subclass that inherits
  \<open>update_reward\<close>) hold after the updates \<open>us\<close>, from the constructor's state.
\<close>

definition mab_tracks :: "('a, 'z) mab_scheme \<Rightarrow> ('a \<times> real) list \<Rightarrow> bool" where
  "mab_tracks s us = (\<forall>arm.
     map_of (total_count s) arm =
       (if rewards_of arm us = [] then None else Some (int (length (rewards_of arm us)))) \<and>
     map_of (total_rewards s) arm =
       (if rewards_of arm us = [] then None else Some (sum_list (rewards_of arm us))) \<and>
     map_of (average_reward s) arm =
       (if rewards_of arm us = [] then None
        else Some (sum_list (rewards_of arm us) / real (length (rewards_of arm us)))))"

text \<open>
  What a \<open>UCB1\<close> object made with \<open>beta = b\<close> holds after the calls \<open>us\<close> of
  \<open>update_reward\<close>, whether they returned or raised.
\<close>

definition ucb_tracks :: "('a, 'z) ucb1_scheme \<Rightarrow> real \<Rightarrow> ('a \<times> real) list \<Rightarrow> bool" where
  "ucb_tracks s b us =
    (beta s = b \<and> overall_total_count s = int (length us) \<and>
     (\<forall>arm.
       map_of (total_count s) arm =
         (if rewards_of arm us = [] then None else Some (int (length (rewards_of arm us)))) \<and>
       (map_of (total_rewards s) arm = None \<longleftrightarrow> rewards_of arm us = []) \<and>
       (rewards_of arm us = [] \<longrightarrow> map_of (average_reward s) arm = None)))"

text \<open>The argument of \<open>math.sqrt\<close> in an update that brings the arm's count to \<open>n\<close>.\<close>

definition bonus_arg :: "real \<Rightarrow> int \<Rightarrow> real" where
  "bonus_arg b n = 2 * b * ln (real_of_int n) / real_of_int n"

text \<open>
  What a \<open>TS\<close> object holds after the calls \<open>cs\<close>, whether they returned or raised.
\<close>

definition ts_tracks :: "'a ts \<Rightarrow> 'a ts_call list \<Rightarrow> bool" where
  "ts_tracks s cs =
    (distinct (map fst (total_count_ts s)) \<and>
     (\<forall>arm.
       map_of (total_count_ts s) arm =
         (if ts_rewards_of arm cs = [] then None
          else Some (int (length (ts_rewards_of arm cs)))) \<and>
       map_of (alpha s) arm =
         (if ts_rewards_of arm cs = [] then None
          else Some (1 + sum_list (ts_rewards_of arm cs))) \<and>
       map_of (beta_ts s) arm =
         (if ts_rewards_of arm cs = [] then None
          else Some (1 + (\<Sum>r\<leftarrow>ts_rewards_of arm cs. 1 - r)))))"

section \<open>The selection of \<open>TS\<close>: what is assumed, and what is drawn\<close>

text \<open>The rewards that \<open>TS.update_reward\<close> asks for: 0 or 1.\<close>

definition bernoulli :: "'a ts_call \<Rightarrow> bool" where
  "bernoulli c = (case c of Update_reward a r \<Rightarrow> r = 0 \<or> r = 1 | Get_best_arm \<Rightarrow> True)"

text \<open>
  What is assumed of \<open>random.betavariate\<close>: on positive shape parameters it returns, and
  the value lies between 0 and 1.
\<close>

definition beta_sampler :: "'g sampler \<Rightarrow> bool" where
  "beta_sampler betavariate =
    (\<forall>g a b. 0 < a \<and> 0 < b \<longrightarrow>
       (\<exists>x g'. betavariate g a b = Inr (x, g') \<and> 0 \<le> x \<and> x \<le> 1))"

text \<open>
  Following the claim's words: one sample for every arm of a list, each drawn at the
  arm's \<open>alpha\<close> and \<open>beta\<close>, the generator passing from one draw to the next.
\<close>

primrec spec_draws ::
  "'g sampler \<Rightarrow> 'g \<Rightarrow> 'a ts \<Rightarrow> 'a list \<Rightarrow> py_error + (real list \<times> 'g)" where
  "spec_draws betavariate g s [] = Inr ([], g)"
| "spec_draws betavariate g s (arm # arms) =
    (case map_of (alpha s) arm of
       None \<Rightarrow> Inl KeyError
     | Some a \<Rightarrow>
        (case map_of (beta_ts s) arm of
           None \<Rightarrow> Inl KeyError
         | Some b \<Rightarrow>
            (case betavariate g a b of
               Inl e \<Rightarrow> Inl e
             | Inr (x, g') \<Rightarrow>
                (case spec_draws betavariate g' s arms of
                   Inl e \<Rightarrow> Inl e
                 | Inr (xs, g'') \<Rightarrow> Inr (x # xs, g'')))))"

text \<open>One pass of the loop of \<open>TS.get_best_arm\<close> over the local \<open>best_arm\<close>.\<close>

fun keep_best :: "'a option \<times> real \<Rightarrow> 'a \<times> real \<Rightarrow> 'a option \<times> real" where
  "keep_best best_arm (arm, x) = (if x \<ge> snd best_arm then (Some arm, x) else best_arm)"

section \<open>Inputs to run the model on\<close>

text \<open>
  A sampler to run the model on: it returns the mean of the distribution, counts the
  draws in the generator's state, and raises on a shape parameter that is not positive.
\<close>

definition mean_sampler :: "nat sampler" where
  "mean_sampler g a b = (if 0 < a \<and> 0 < b then Inr (a / (a + b), Suc g) else Inl ValueError)"

text \<open>
  Two objects to run the selection on: after \<open>update_reward("A", 1)\<close>,
  \<open>update_reward("B", 0)\<close>, \<open>update_reward("B", 1)\<close>, and after \<open>update_reward("A", 1)\<close>,
  \<open>update_reward("B", 1)\<close>.
\<close>

definition two_arms :: "string ts" where
  "two_arms =
    \<lparr>total_count_ts = [(''A'', 1), (''B'', 2)], alpha = [(''A'', 2), (''B'', 2)],
     beta_ts = [(''A'', 1), (''B'', 2)], last_drawn = [(''A'', 0), (''B'', 0)]\<rparr>"

definition tied_arms :: "string ts" where
  "tied_arms =
    \<lparr>total_count_ts = [(''A'', 1), (''B'', 1)], alpha = [(''A'', 2), (''B'', 2)],
     beta_ts = [(''A'', 1), (''B'', 1)], last_drawn = [(''A'', 0), (''B'', 0)]\<rparr>"


section \<open>Proofs\<close>

subsection \<open>Dictionary facts\<close>

lemma map_of_setitem: "map_of (setitem d k v) = (map_of d)(k \<mapsto> v)"
  by (induction d) auto

lemma calls_snoc: "calls f s (cs @ [c]) = state_of (f (calls f s cs) c)"
  by (induction cs arbitrary: s) auto

lemma run_snoc:
  "run f s (cs @ [c]) =
    (case run f s cs of Done s' \<Rightarrow> f s' c | Raised e s' \<Rightarrow> Raised e s')"
  by (induction cs arbitrary: s) (auto split: outcome.splits)

lemma rewards_of_snoc:
  "rewards_of arm (us @ [u]) =
    (if fst u = arm then rewards_of arm us @ [snd u] else rewards_of arm us)"
  by (simp add: rewards_of_def)

subsection \<open>MAB: the sample average\<close>

lemma MAB_update_reward_new:
  assumes "map_of (total_rewards s) arm = None"
  shows "\<exists>s'. MAB_update_reward s arm r = Done s' \<and>
     map_of (total_count s') = (map_of (total_count s))(arm \<mapsto> 1) \<and>
     map_of (total_rewards s') = (map_of (total_rewards s))(arm \<mapsto> r) \<and>
     map_of (average_reward s') = (map_of (average_reward s))(arm \<mapsto> r)"
  using assms by (simp add: MAB_update_reward_def Let_def contains_def map_of_setitem)

lemma MAB_update_reward_old:
  assumes "map_of (total_rewards s) arm = Some t" and "map_of (total_count s) arm = Some c"
    and "c + 1 \<noteq> 0"
  shows "\<exists>s'. MAB_update_reward s arm r = Done s' \<and>
     map_of (total_count s') = (map_of (total_count s))(arm \<mapsto> c + 1) \<and>
     map_of (total_rewards s') = (map_of (total_rewards s))(arm \<mapsto> t + r) \<and>
     map_of (average_reward s') = (map_of (average_reward s))(arm \<mapsto> (t + r) / real_of_int (c + 1))"
  using assms by (simp add: MAB_update_reward_def Let_def contains_def map_of_setitem)

lemma MAB_update_tracks:
  assumes "mab_tracks s us"
  shows "\<exists>s'. MAB_update_reward s a r = Done s' \<and> mab_tracks s' (us @ [(a, r)])"
proof (cases "rewards_of a us = []")
  case True
  then have "map_of (total_rewards s) a = None"
    using assms by (simp add: mab_tracks_def)
  from MAB_update_reward_new [OF this, of r] obtain s' where
    s': "MAB_update_reward s a r = Done s'"
      "map_of (total_count s') = (map_of (total_count s))(a \<mapsto> 1)"
      "map_of (total_rewards s') = (map_of (total_rewards s))(a \<mapsto> r)"
      "map_of (average_reward s') = (map_of (average_reward s))(a \<mapsto> r)"
    by blast
  have "mab_tracks s' (us @ [(a, r)])"
    unfolding mab_tracks_def
  proof
    fix arm
    show "map_of (total_count s') arm =
       (if rewards_of arm (us @ [(a, r)]) = [] then None else Some (int (length (rewards_of arm (us @ [(a, r)]))))) \<and>
     map_of (total_rewards s') arm =
       (if rewards_of arm (us @ [(a, r)]) = [] then None else Some (sum_list (rewards_of arm (us @ [(a, r)])))) \<and>
     map_of (average_reward s') arm =
       (if rewards_of arm (us @ [(a, r)]) = [] then None
        else Some (sum_list (rewards_of arm (us @ [(a, r)])) / real (length (rewards_of arm (us @ [(a, r)])))))"
      using assms True s'(2-4) by (cases "arm = a") (simp_all add: mab_tracks_def rewards_of_snoc)
  qed
  with s'(1) show ?thesis by blast
next
  case False
  then have t: "map_of (total_rewards s) a = Some (sum_list (rewards_of a us))"
    and c: "map_of (total_count s) a = Some (int (length (rewards_of a us)))"
    using assms by (simp_all add: mab_tracks_def)
  have nz: "int (length (rewards_of a us)) + 1 \<noteq> 0" by simp
  from MAB_update_reward_old [OF t c nz, of r] obtain s' where
    s': "MAB_update_reward s a r = Done s'"
      "map_of (total_count s') = (map_of (total_count s))(a \<mapsto> int (length (rewards_of a us)) + 1)"
      "map_of (total_rewards s') = (map_of (total_rewards s))(a \<mapsto> sum_list (rewards_of a us) + r)"
      "map_of (average_reward s') = (map_of (average_reward s))(a \<mapsto>
          (sum_list (rewards_of a us) + r) / real_of_int (int (length (rewards_of a us)) + 1))"
    by blast
  have "mab_tracks s' (us @ [(a, r)])"
    unfolding mab_tracks_def
  proof
    fix arm
    show "map_of (total_count s') arm =
       (if rewards_of arm (us @ [(a, r)]) = [] then None else Some (int (length (rewards_of arm (us @ [(a, r)]))))) \<and>
     map_of (total_rewards s') arm =
       (if rewards_of arm (us @ [(a, r)]) = [] then None else Some (sum_list (rewards_of arm (us @ [(a, r)])))) \<and>
     map_of (average_reward s') arm =
       (if rewards_of arm (us @ [(a, r)]) = [] then None
        else Some (sum_list (rewards_of arm (us @ [(a, r)])) / real (length (rewards_of arm (us @ [(a, r)])))))"
      using assms s'(2-4) by (cases "arm = a") (simp_all add: mab_tracks_def rewards_of_snoc add.commute)
  qed
  with s'(1) show ?thesis by blast
qed

lemma MAB_calls_tracks:
  assumes "mab_tracks s0 []"
  shows "run MAB_step s0 us = Done (calls MAB_step s0 us) \<and> mab_tracks (calls MAB_step s0 us) us"
proof (induction us rule: rev_induct)
  case Nil
  then show ?case using assms by simp
next
  case (snoc u us)
  obtain a r where u: "u = (a, r)" by (cases u)
  from snoc have tr: "mab_tracks (calls MAB_step s0 us) us" by simp
  from snoc have rn: "run MAB_step s0 us = Done (calls MAB_step s0 us)" by simp
  from MAB_update_tracks [OF tr, of a r] obtain s' where
    s': "MAB_step (calls MAB_step s0 us) u = Done s'"
      "mab_tracks s' (us @ [u])"
    by (auto simp: u)
  show ?case
    by (simp add: calls_snoc run_snoc rn s')
qed

lemma mab_tracks_init: "mab_tracks (MAB_init :: 'a mab) []"
  by (simp add: mab_tracks_def MAB_init_def rewards_of_def)

text \<open>
  Claim C1. On a fresh \<open>MAB\<close> object every call of a sequence of \<open>update_reward\<close> calls
  returns, and afterwards \<open>get_reward(arm)\<close> is the sum of the rewards passed for the arm
  divided by the number of updates of the arm (and 0 for an arm with no update), while
  \<open>get_arm_count(arm)\<close> is that number.
\<close>

theorem C1_mean_consistency:
  "run MAB_step MAB_init us = Done (calls MAB_step MAB_init us) \<and>
   MAB_get_reward (calls MAB_step (MAB_init :: 'a mab) us) arm =
     (if rewards_of arm us = [] then 0
      else sum_list (rewards_of arm us) / real (length (rewards_of arm us))) \<and>
   MAB_get_arm_count (calls MAB_step (MAB_init :: 'a mab) us) arm =
     int (length (rewards_of arm us))"
proof -
  have tr: "mab_tracks (calls MAB_step (MAB_init :: 'a mab) us) us"
    and rn: "run MAB_step (MAB_init :: 'a mab) us = Done (calls MAB_step MAB_init us)"
    using MAB_calls_tracks [OF mab_tracks_init] by blast+
  from tr have
    "map_of (total_count (calls MAB_step (MAB_init :: 'a mab) us)) arm =
       (if rewards_of arm us = [] then None else Some (int (length (rewards_of arm us))))"
    "map_of (average_reward (calls MAB_step (MAB_init :: 'a mab) us)) arm =
       (if rewards_of arm us = [] then None
        else Some (sum_list (rewards_of arm us) / real (length (rewards_of arm us))))"
    by (simp_all add: mab_tracks_def)
  then show ?thesis
    using rn by (simp add: MAB_get_reward_def MAB_get_arm_count_def)
qed

text \<open>
  The scenario of the claim: \<open>update("A", 1.0)\<close>, \<open>update("A", 0.0)\<close>,
  \<open>update("B", 0.5)\<close>.
\<close>

theorem C1_scenario:
  "MAB_get_reward (calls MAB_step MAB_init [(''A'', 1), (''A'', 0), (''B'', 1 / 2)]) ''A'' = 1 / 2 \<and>
   MAB_get_reward (calls MAB_step MAB_init [(''A'', 1), (''A'', 0), (''B'', 1 / 2)]) ''B'' = 1 / 2 \<and>
   MAB_get_arm_count (calls MAB_step MAB_init [(''A'', 1), (''A'', 0), (''B'', 1 / 2)]) ''A'' = 2"
  using C1_mean_consistency [of "[(''A'', 1), (''A'', 0), (''B'', 1 / 2)]" "''A''"]
    C1_mean_consistency [of "[(''A'', 1), (''A'', 0), (''B'', 1 / 2)]" "''B''"]
  by (simp add: rewards_of_def)

subsection \<open>UCB1: counters and bonus\<close>

lemma UCB1_update_reward_new:
  assumes "map_of (total_rewards s) arm = None"
  shows "\<exists>s'. UCB1_update_reward s arm r = Done s' \<and>
     map_of (total_count s') = (map_of (total_count s))(arm \<mapsto> 1) \<and>
     map_of (total_rewards s') = (map_of (total_rewards s))(arm \<mapsto> r) \<and>
     map_of (average_reward s') = (map_of (average_reward s))(arm \<mapsto> r) \<and>
     overall_total_count s' = overall_total_count s + 1 \<and> beta s' = beta s \<and> ucb s' = 0"
  using assms by (simp add: UCB1_update_reward_def Let_def contains_def map_of_setitem)

lemma UCB1_update_reward_old:
  assumes "map_of (total_rewards s) arm = Some t" and "map_of (total_count s) arm = Some c"
    and "0 < c + 1" and "0 \<le> bonus_arg (beta s) (c + 1)"
  shows "\<exists>s'. UCB1_update_reward s arm r = Done s' \<and>
     map_of (total_count s') = (map_of (total_count s))(arm \<mapsto> c + 1) \<and>
     map_of (total_rewards s') =
       (map_of (total_rewards s))(arm \<mapsto> t + (r + sqrt (bonus_arg (beta s) (c + 1)))) \<and>
     map_of (average_reward s') =
       (map_of (average_reward s))(arm \<mapsto>
          (t + (r + sqrt (bonus_arg (beta s) (c + 1)))) / real_of_int (c + 1)) \<and>
     overall_total_count s' = overall_total_count s + 1 \<and> beta s' = beta s \<and>
     ucb s' = sqrt (bonus_arg (beta s) (c + 1))"
  using assms
  by (simp add: UCB1_update_reward_def Let_def contains_def map_of_setitem bonus_arg_def
      del: of_int_add)

lemma UCB1_update_reward_raise:
  assumes "map_of (total_rewards s) arm = Some t" and "map_of (total_count s) arm = Some c"
    and "0 < c + 1" and "bonus_arg (beta s) (c + 1) < 0"
  shows "\<exists>s'. UCB1_update_reward s arm r = Raised ValueError s' \<and>
     map_of (total_count s') = (map_of (total_count s))(arm \<mapsto> c + 1) \<and>
     total_rewards s' = total_rewards s \<and> average_reward s' = average_reward s \<and>
     overall_total_count s' = overall_total_count s + 1 \<and> beta s' = beta s"
  using assms
  by (simp add: UCB1_update_reward_def Let_def contains_def map_of_setitem bonus_arg_def
      del: of_int_add)

lemma ucb_tracks_snocI:
  assumes "ucb_tracks s b us"
    and "map_of (total_count s') = (map_of (total_count s))(a \<mapsto> int (length (rewards_of a us)) + 1)"
    and "map_of (total_rewards s') a \<noteq> None"
    and "\<And>arm. arm \<noteq> a \<Longrightarrow> map_of (total_rewards s') arm = map_of (total_rewards s) arm"
    and "\<And>arm. arm \<noteq> a \<Longrightarrow> map_of (average_reward s') arm = map_of (average_reward s) arm"
    and "overall_total_count s' = overall_total_count s + 1" and "beta s' = beta s"
  shows "ucb_tracks s' b (us @ [(a, r)])"
  unfolding ucb_tracks_def
proof (intro conjI allI)
  show "beta s' = b" using assms(1,7) by (simp add: ucb_tracks_def)
  show "overall_total_count s' = int (length (us @ [(a, r)]))"
    using assms(1,6) by (simp add: ucb_tracks_def)
next
  fix arm
  show "map_of (total_count s') arm =
      (if rewards_of arm (us @ [(a, r)]) = [] then None
       else Some (int (length (rewards_of arm (us @ [(a, r)])))))"
    using assms(1,2) by (cases "arm = a") (simp_all add: ucb_tracks_def rewards_of_snoc)
  show "(map_of (total_rewards s') arm = None) = (rewards_of arm (us @ [(a, r)]) = [])"
    using assms(1,3) assms(4) [of arm]
    by (cases "arm = a") (simp_all add: ucb_tracks_def rewards_of_snoc)
  show "rewards_of arm (us @ [(a, r)]) = [] \<longrightarrow> map_of (average_reward s') arm = None"
    using assms(1) assms(5) [of arm]
    by (cases "arm = a") (simp_all add: ucb_tracks_def rewards_of_snoc)
qed

lemma UCB1_update_tracks:
  assumes "ucb_tracks s b us"
  shows "ucb_tracks (state_of (UCB1_update_reward s a r)) b (us @ [(a, r)])"
proof (cases "rewards_of a us = []")
  case True
  then have "map_of (total_rewards s) a = None" and c: "map_of (total_count s) a = None"
    using assms by (simp_all add: ucb_tracks_def)
  from UCB1_update_reward_new [OF this(1), of r] obtain s' where
    s': "UCB1_update_reward s a r = Done s'"
      "map_of (total_count s') = (map_of (total_count s))(a \<mapsto> 1)"
      "map_of (total_rewards s') = (map_of (total_rewards s))(a \<mapsto> r)"
      "map_of (average_reward s') = (map_of (average_reward s))(a \<mapsto> r)"
      "overall_total_count s' = overall_total_count s + 1" "beta s' = beta s"
    by blast
  have "ucb_tracks s' b (us @ [(a, r)])"
    by (rule ucb_tracks_snocI [OF assms]) (simp_all add: s' True)
  then show ?thesis by (simp add: s'(1))
next
  case False
  then obtain t where t: "map_of (total_rewards s) a = Some t"
    using assms by (auto simp: ucb_tracks_def)
  from False have c: "map_of (total_count s) a = Some (int (length (rewards_of a us)))"
    using assms by (simp add: ucb_tracks_def)
  have pos: "0 < int (length (rewards_of a us)) + 1" by simp
  show ?thesis
  proof (cases "0 \<le> bonus_arg (beta s) (int (length (rewards_of a us)) + 1)")
    case True
    from UCB1_update_reward_old [OF t c pos True, of r] obtain s' where
      s': "UCB1_update_reward s a r = Done s'"
        "map_of (total_count s') = (map_of (total_count s))(a \<mapsto> int (length (rewards_of a us)) + 1)"
        "map_of (total_rewards s') = (map_of (total_rewards s))(a \<mapsto>
           t + (r + sqrt (bonus_arg (beta s) (int (length (rewards_of a us)) + 1))))"
        "map_of (average_reward s') = (map_of (average_reward s))(a \<mapsto>
           (t + (r + sqrt (bonus_arg (beta s) (int (length (rewards_of a us)) + 1)))) /
             real_of_int (int (length (rewards_of a us)) + 1))"
        "overall_total_count s' = overall_total_count s + 1" "beta s' = beta s"
      by blast
    have "ucb_tracks s' b (us @ [(a, r)])"
      by (rule ucb_tracks_snocI [OF assms]) (simp_all add: s')
    then show ?thesis by (simp add: s'(1))
  next
    case False
    then have neg: "bonus_arg (beta s) (int (length (rewards_of a us)) + 1) < 0" by simp
    from UCB1_update_reward_raise [OF t c pos neg, of r] obtain s' where
      s': "UCB1_update_reward s a r = Raised ValueError s'"
        "map_of (total_count s') = (map_of (total_count s))(a \<mapsto> int (length (rewards_of a us)) + 1)"
        "total_rewards s' = total_rewards s" "average_reward s' = average_reward s"
        "overall_total_count s' = overall_total_count s + 1" "beta s' = beta s"
      by blast
    have "ucb_tracks s' b (us @ [(a, r)])"
      by (rule ucb_tracks_snocI [OF assms]) (simp_all add: s' t)
    then show ?thesis by (simp add: s'(1))
  qed
qed

lemma ucb_tracks_init: "ucb_tracks (UCB1_init b :: 'a ucb1) b []"
  by (simp add: ucb_tracks_def UCB1_init_def rewards_of_def)

lemma UCB1_calls_tracks:
  "ucb_tracks (calls UCB1_step (UCB1_init b :: 'a ucb1) us) b us"
proof (induction us rule: rev_induct)
  case Nil
  show ?case by (simp add: ucb_tracks_init)
next
  case (snoc u us)
  obtain a r where u: "u = (a, r)" by (cases u)
  from UCB1_update_tracks [OF snoc, of a r]
  have "ucb_tracks (state_of (UCB1_step (calls UCB1_step (UCB1_init b) us) u)) b (us @ [u])"
    by (simp add: u)
  then show ?case by (simp add: calls_snoc)
qed

lemma bonus_arg_nonneg: "0 \<le> b \<Longrightarrow> 1 \<le> n \<Longrightarrow> 0 \<le> bonus_arg b n"
  by (simp add: bonus_arg_def)

lemma UCB1_update_returns:
  assumes tr: "ucb_tracks s b us" and ok: "0 \<le> b \<or> rewards_of arm us = []"
  shows "\<exists>s'. UCB1_update_reward s arm reward = Done s' \<and>
     MAB_get_arm_count s' arm = int (length (rewards_of arm us)) + 1 \<and>
     ucb s' = sqrt (2 * b * ln (real_of_int (MAB_get_arm_count s' arm))
                      / real_of_int (MAB_get_arm_count s' arm)) \<and>
     map_of (total_rewards s') arm =
       Some ((case map_of (total_rewards s) arm of None \<Rightarrow> 0 | Some t \<Rightarrow> t) + (reward + ucb s')) \<and>
     map_of (average_reward s') arm =
       Some (((case map_of (total_rewards s) arm of None \<Rightarrow> 0 | Some t \<Rightarrow> t) + (reward + ucb s'))
             / real_of_int (MAB_get_arm_count s' arm)) \<and>
     (rewards_of arm us = [] \<longrightarrow> ucb s' = 0)"
proof (cases "rewards_of arm us = []")
  case True
  then have t: "map_of (total_rewards s) arm = None"
    using tr by (simp add: ucb_tracks_def)
  from UCB1_update_reward_new [OF t, of reward] obtain s' where
    s': "UCB1_update_reward s arm reward = Done s'"
      "map_of (total_count s') = (map_of (total_count s))(arm \<mapsto> 1)"
      "map_of (total_rewards s') = (map_of (total_rewards s))(arm \<mapsto> reward)"
      "map_of (average_reward s') = (map_of (average_reward s))(arm \<mapsto> reward)"
      "ucb s' = 0"
    by blast
  have n: "MAB_get_arm_count s' arm = 1"
    by (simp add: MAB_get_arm_count_def s'(2))
  show ?thesis
    by (rule exI [of _ s']) (simp add: s' n t True)
next
  case False
  then obtain t where t: "map_of (total_rewards s) arm = Some t"
    using tr by (auto simp: ucb_tracks_def)
  from False have c: "map_of (total_count s) arm = Some (int (length (rewards_of arm us)))"
    using tr by (simp add: ucb_tracks_def)
  have b: "beta s = b" using tr by (simp add: ucb_tracks_def)
  have pos: "0 < int (length (rewards_of arm us)) + 1" by simp
  have nn: "0 \<le> bonus_arg (beta s) (int (length (rewards_of arm us)) + 1)"
    using ok False b by (simp add: bonus_arg_nonneg)
  from UCB1_update_reward_old [OF t c pos nn, of reward] obtain s' where
    s': "UCB1_update_reward s arm reward = Done s'"
      "map_of (total_count s') = (map_of (total_count s))(arm \<mapsto> int (length (rewards_of arm us)) + 1)"
      "map_of (total_rewards s') = (map_of (total_rewards s))(arm \<mapsto>
         t + (reward + sqrt (bonus_arg (beta s) (int (length (rewards_of arm us)) + 1))))"
      "map_of (average_reward s') = (map_of (average_reward s))(arm \<mapsto>
         (t + (reward + sqrt (bonus_arg (beta s) (int (length (rewards_of arm us)) + 1)))) /
           real_of_int (int (length (rewards_of arm us)) + 1))"
      "ucb s' = sqrt (bonus_arg (beta s) (int (length (rewards_of arm us)) + 1))"
    by blast
  have n: "MAB_get_arm_count s' arm = int (length (rewards_of arm us)) + 1"
    by (simp add: MAB_get_arm_count_def s'(2))
  show ?thesis
    by (rule exI [of _ s']) (simp add: s' n t b False bonus_arg_def del: of_int_add)
qed

lemma UCB1_run_returns:
  assumes "0 \<le> b"
  shows "run UCB1_step (UCB1_init b :: 'a ucb1) us = Done (calls UCB1_step (UCB1_init b) us)"
proof (induction us rule: rev_induct)
  case Nil
  show ?case by simp
next
  case (snoc u us)
  obtain a r where u: "u = (a, r)" by (cases u)
  from UCB1_update_returns [OF UCB1_calls_tracks, of b a us r] assms obtain s' where
    "UCB1_update_reward (calls UCB1_step (UCB1_init b :: 'a ucb1) us) a r = Done s'"
    by blast
  then show ?case by (simp add: run_snoc calls_snoc snoc u)
qed

text \<open>
  Claim C3. On a \<open>UCB1\<close> object made with \<open>beta = b\<close> and updated by any sequence
  of calls, a further \<open>update_reward(arm, reward)\<close> returns when \<open>b\<close> is not negative or
  when it is the arm's first update. Then, with \<open>n\<close> the arm's count after the increment
  (one more than the number of earlier updates of the arm), the bonus stored in \<open>ucb\<close> is
  \<open>sqrt(2 * b * ln(n) / n)\<close>, \<open>total_rewards[arm]\<close> has grown by \<open>reward + bonus\<close> (from 0
  for a new arm), \<open>average_reward[arm]\<close> is \<open>total_rewards[arm] / n\<close>, and the bonus of
  an arm's first update is 0.
\<close>

theorem C3_ucb_bonus:
  assumes "0 \<le> b \<or> rewards_of arm us = []"
  shows "\<exists>s'. UCB1_update_reward (calls UCB1_step (UCB1_init b) us) arm reward = Done s' \<and>
     MAB_get_arm_count s' arm = int (length (rewards_of arm us)) + 1 \<and>
     ucb s' = sqrt (2 * b * ln (real_of_int (MAB_get_arm_count s' arm))
                      / real_of_int (MAB_get_arm_count s' arm)) \<and>
     map_of (total_rewards s') arm =
       Some ((case map_of (total_rewards (calls UCB1_step (UCB1_init b) us)) arm of
                None \<Rightarrow> 0 | Some t \<Rightarrow> t) + (reward + ucb s')) \<and>
     map_of (average_reward s') arm =
       Some (((case map_of (total_rewards (calls UCB1_step (UCB1_init b) us)) arm of
                 None \<Rightarrow> 0 | Some t \<Rightarrow> t) + (reward + ucb s'))
             / real_of_int (MAB_get_arm_count s' arm)) \<and>
     (rewards_of arm us = [] \<longrightarrow> ucb s' = 0)"
  using UCB1_update_returns [OF UCB1_calls_tracks assms] .

text \<open>
  At \<open>UCB1(1.0)\<close> after \<open>update_reward("A", 1)\<close>: the second update of \<open>"A"\<close>, with reward
  0, has \<open>n = 2\<close> and the bonus \<open>sqrt(2 * ln(2) / 2)\<close>.
\<close>

theorem C3_ucb_bonus_witness:
  "(0 \<le> (1::real) \<or> rewards_of ''A'' [(''A'', 1)] = []) \<and>
   (\<exists>s'. UCB1_update_reward (calls UCB1_step (UCB1_init 1) [(''A'', 1)]) ''A'' 0 = Done s' \<and>
      MAB_get_arm_count s' ''A'' = 2 \<and> ucb s' = sqrt (ln 2) \<and>
      map_of (total_rewards s') ''A'' = Some (1 + sqrt (ln 2)) \<and>
      MAB_get_reward s' ''A'' = (1 + sqrt (ln 2)) / 2)"
proof -
  have h: "0 \<le> (1::real) \<or> rewards_of ''A'' [(''A'', 1)] = []" by simp
  have t: "map_of (total_rewards (calls UCB1_step (UCB1_init 1) [(''A'', 1)])) ''A'' = Some 1"
    by (simp add: UCB1_init_def UCB1_update_reward_def contains_def Let_def)
  from C3_ucb_bonus [OF h, of 0] obtain s' where
    s': "UCB1_update_reward (calls UCB1_step (UCB1_init 1) [(''A'', 1)]) ''A'' 0 = Done s'"
     "MAB_get_arm_count s' ''A'' = int (length (rewards_of ''A'' [(''A'', 1::real)])) + 1"
     "ucb s' = sqrt (2 * 1 * ln (real_of_int (MAB_get_arm_count s' ''A''))
                      / real_of_int (MAB_get_arm_count s' ''A''))"
     "map_of (total_rewards s') ''A'' =
       Some ((case map_of (total_rewards (calls UCB1_step (UCB1_init 1) [(''A'', 1)])) ''A'' of
                None \<Rightarrow> 0 | Some t \<Rightarrow> t) + (0 + ucb s'))"
     "map_of (average_reward s') ''A'' =
       Some (((case map_of (total_rewards (calls UCB1_step (UCB1_init 1) [(''A'', 1)])) ''A'' of
                 None \<Rightarrow> 0 | Some t \<Rightarrow> t) + (0 + ucb s'))
             / real_of_int (MAB_get_arm_count s' ''A''))"
    by blast
  have n: "MAB_get_arm_count s' ''A'' = 2" using s'(2) by (simp add: rewards_of_def)
  have u: "ucb s' = sqrt (ln 2)" using s'(3) by (simp add: n)
  have tot: "map_of (total_rewards s') ''A'' = Some (1 + sqrt (ln 2))"
    using s'(4) unfolding t u by simp
  have avg: "MAB_get_reward s' ''A'' = (1 + sqrt (ln 2)) / 2"
    using s'(5) unfolding t u n by (simp add: MAB_get_reward_def)
  show ?thesis
    using h s'(1) n u tot avg by blast
qed

text \<open>
  Claim C6. After the \<open>N\<close> calls of any sequence of \<open>update_reward\<close> calls on a fresh
  \<open>UCB1\<close> object, \<open>overall_total_count\<close> is \<open>N\<close>: for every \<open>beta\<close>, since the counter is
  incremented before anything in the call can raise; and when \<open>beta\<close> is not negative no
  call of the sequence raises.
\<close>

theorem C6_overall_total_count:
  "overall_total_count (calls UCB1_step (UCB1_init b) us) = int (length us) \<and>
   (0 \<le> b \<longrightarrow> run UCB1_step (UCB1_init b) us = Done (calls UCB1_step (UCB1_init b) us))"
  using UCB1_calls_tracks [of b us] UCB1_run_returns [of b us] by (simp add: ucb_tracks_def)

text \<open>
  Three calls on \<open>UCB1(-1.0)\<close>, the second of which raises \<open>ValueError\<close>, and two calls
  on \<open>UCB1(1.0)\<close>.
\<close>

theorem C6_overall_total_count_witness:
  "overall_total_count
     (calls UCB1_step (UCB1_init (- 1)) [(''A'', 1), (''A'', 0), (''B'', 1 / 2)]) = 3 \<and>
   0 \<le> (1::real) \<and>
   run UCB1_step (UCB1_init 1) [(''A'', 1), (''B'', 0)] =
     Done (calls UCB1_step (UCB1_init 1) [(''A'', 1), (''B'', 0)])"
  using C6_overall_total_count [of "- 1" "[(''A'', 1), (''A'', 0), (''B'', 1 / 2)]"]
    C6_overall_total_count [of 1 "[(''A'', 1), (''B'', 0)]"]
  by simp

subsection \<open>TS: the parameters of the posterior\<close>

lemma keys_setitem: "fst ` set (setitem d k v) = insert k (fst ` set d)"
  by (induction d) auto

lemma distinct_setitem:
  "distinct (map fst d) \<Longrightarrow> distinct (map fst (setitem d k v))"
  by (induction d) (auto simp: keys_setitem)

lemma ts_rewards_of_snoc:
  "ts_rewards_of arm (cs @ [c]) =
    ts_rewards_of arm cs @
      (case c of Update_reward a r \<Rightarrow> (if a = arm then [r] else []) | Get_best_arm \<Rightarrow> [])"
  by (induction cs) (auto split: ts_call.splits)

lemma TS_update_reward_new:
  assumes "map_of (total_count_ts s) arm = None"
  shows "\<exists>s'. TS_update_reward s arm r = Done s' \<and>
     total_count_ts s' = setitem (setitem (total_count_ts s) arm 0) arm 1 \<and>
     map_of (alpha s') = (map_of (alpha s))(arm \<mapsto> 1 + r) \<and>
     map_of (beta_ts s') = (map_of (beta_ts s))(arm \<mapsto> 1 + (1 - r))"
  using assms by (simp add: TS_update_reward_def Let_def contains_def map_of_setitem)

lemma TS_update_reward_old:
  assumes "map_of (total_count_ts s) arm = Some c" and "map_of (alpha s) arm = Some a"
    and "map_of (beta_ts s) arm = Some b"
  shows "\<exists>s'. TS_update_reward s arm r = Done s' \<and>
     total_count_ts s' = setitem (total_count_ts s) arm (c + 1) \<and>
     map_of (alpha s') = (map_of (alpha s))(arm \<mapsto> a + r) \<and>
     map_of (beta_ts s') = (map_of (beta_ts s))(arm \<mapsto> b + (1 - r))"
  using assms by (simp add: TS_update_reward_def Let_def contains_def map_of_setitem)

lemma ts_tracks_updateI:
  assumes "ts_tracks s cs"
    and "distinct (map fst (total_count_ts s'))"
    and "map_of (total_count_ts s') =
          (map_of (total_count_ts s))(a \<mapsto> int (length (ts_rewards_of a cs)) + 1)"
    and "map_of (alpha s') = (map_of (alpha s))(a \<mapsto> 1 + sum_list (ts_rewards_of a cs) + r)"
    and "map_of (beta_ts s') =
          (map_of (beta_ts s))(a \<mapsto> 1 + (\<Sum>r\<leftarrow>ts_rewards_of a cs. 1 - r) + (1 - r))"
  shows "ts_tracks s' (cs @ [Update_reward a r])"
  unfolding ts_tracks_def
proof (intro conjI allI)
  show "distinct (map fst (total_count_ts s'))" by fact
next
  fix arm
  show "map_of (total_count_ts s') arm =
      (if ts_rewards_of arm (cs @ [Update_reward a r]) = [] then None
       else Some (int (length (ts_rewards_of arm (cs @ [Update_reward a r])))))"
    using assms(1,3) by (cases "arm = a") (simp_all add: ts_tracks_def ts_rewards_of_snoc)
  show "map_of (alpha s') arm =
      (if ts_rewards_of arm (cs @ [Update_reward a r]) = [] then None
       else Some (1 + sum_list (ts_rewards_of arm (cs @ [Update_reward a r]))))"
    using assms(1,4) by (cases "arm = a") (simp_all add: ts_tracks_def ts_rewards_of_snoc)
  show "map_of (beta_ts s') arm =
      (if ts_rewards_of arm (cs @ [Update_reward a r]) = [] then None
       else Some (1 + (\<Sum>r\<leftarrow>ts_rewards_of arm (cs @ [Update_reward a r]). 1 - r)))"
    using assms(1,5) by (cases "arm = a") (simp_all add: ts_tracks_def ts_rewards_of_snoc)
qed

lemma TS_update_tracks:
  assumes "ts_tracks s cs"
  shows "\<exists>s'. TS_update_reward s a r = Done s' \<and> ts_tracks s' (cs @ [Update_reward a r])"
proof (cases "ts_rewards_of a cs = []")
  case True
  then have c: "map_of (total_count_ts s) a = None"
    and al: "map_of (alpha s) a = None" and be: "map_of (beta_ts s) a = None"
    using assms by (simp_all add: ts_tracks_def)
  from TS_update_reward_new [OF c, of r] obtain s' where
    s': "TS_update_reward s a r = Done s'"
      "total_count_ts s' = setitem (setitem (total_count_ts s) a 0) a 1"
      "map_of (alpha s') = (map_of (alpha s))(a \<mapsto> 1 + r)"
      "map_of (beta_ts s') = (map_of (beta_ts s))(a \<mapsto> 1 + (1 - r))"
    by blast
  have d: "distinct (map fst (total_count_ts s'))"
    using assms by (simp add: s'(2) distinct_setitem ts_tracks_def)
  have "ts_tracks s' (cs @ [Update_reward a r])"
    by (rule ts_tracks_updateI [OF assms d]) (simp_all add: s' True map_of_setitem)
  with s'(1) show ?thesis by blast
next
  case False
  then have c: "map_of (total_count_ts s) a = Some (int (length (ts_rewards_of a cs)))"
    and al: "map_of (alpha s) a = Some (1 + sum_list (ts_rewards_of a cs))"
    and be: "map_of (beta_ts s) a = Some (1 + (\<Sum>r\<leftarrow>ts_rewards_of a cs. 1 - r))"
    using assms by (simp_all add: ts_tracks_def)
  from TS_update_reward_old [OF c al be, of r] obtain s' where
    s': "TS_update_reward s a r = Done s'"
      "total_count_ts s' = setitem (total_count_ts s) a (int (length (ts_rewards_of a cs)) + 1)"
      "map_of (alpha s') = (map_of (alpha s))(a \<mapsto> 1 + sum_list (ts_rewards_of a cs) + r)"
      "map_of (beta_ts s') =
         (map_of (beta_ts s))(a \<mapsto> 1 + (\<Sum>r\<leftarrow>ts_rewards_of a cs. 1 - r) + (1 - r))"
    by blast
  have d: "distinct (map fst (total_count_ts s'))"
    using assms by (simp add: s'(2) distinct_setitem ts_tracks_def)
  have "ts_tracks s' (cs @ [Update_reward a r])"
    by (rule ts_tracks_updateI [OF assms d]) (simp_all add: s' map_of_setitem)
  with s'(1) show ?thesis by blast
qed

lemma TS_draw_loop_frame:
  "total_count_ts (fst (state_of (TS_draw_loop bv arms (s, g, best)))) = total_count_ts s \<and>
   alpha (fst (state_of (TS_draw_loop bv arms (s, g, best)))) = alpha s \<and>
   beta_ts (fst (state_of (TS_draw_loop bv arms (s, g, best)))) = beta_ts s"
  by (induction arms arbitrary: s g best) (auto split: option.splits sum.splits)

lemma TS_get_best_arm_frame:
  "total_count_ts (fst (snd (TS_get_best_arm bv g s))) = total_count_ts s \<and>
   alpha (fst (snd (TS_get_best_arm bv g s))) = alpha s \<and>
   beta_ts (fst (snd (TS_get_best_arm bv g s))) = beta_ts s"
  using TS_draw_loop_frame [of bv "map fst (total_count_ts s)" s g "(None, 0)"]
  by (auto simp: TS_get_best_arm_def split: outcome.splits option.splits prod.splits)

lemma TS_call_tracks:
  assumes "ts_tracks (fst st) cs"
  shows "ts_tracks (fst (state_of (TS_call bv st c))) (cs @ [c])"
proof (cases c)
  case (Update_reward a r)
  from TS_update_tracks [OF assms, of a r] show ?thesis
    by (auto simp: Update_reward)
next
  case Get_best_arm
  have "fst (state_of (TS_call bv st Get_best_arm)) = fst (snd (TS_get_best_arm bv (snd st) (fst st)))"
    by (simp split: prod.splits sum.splits)
  then show ?thesis
    using assms TS_get_best_arm_frame [of bv "snd st" "fst st"]
    by (simp add: Get_best_arm ts_tracks_def ts_rewards_of_snoc)
qed

lemma ts_tracks_init: "ts_tracks TS_init []"
  by (simp add: ts_tracks_def TS_init_def)

lemma TS_calls_tracks: "ts_tracks (fst (calls (TS_call bv) (TS_init, g0) cs)) cs"
proof (induction cs rule: rev_induct)
  case Nil
  show ?case by (simp add: ts_tracks_init)
next
  case (snoc c cs)
  from TS_call_tracks [OF snoc] show ?case by (simp add: calls_snoc)
qed

text \<open>
  Claim C4. On a fresh \<open>TS\<close> object, after any sequence of calls of \<open>update_reward\<close>
  with rewards 0 or 1 (and of \<open>get_best_arm\<close>, with any sampler), every arm that has been
  updated has \<open>alpha + beta = count + 2\<close>: \<open>alpha\<close> is 1 plus the sum of the arm's
  rewards, \<open>beta\<close> is 1 plus the sum of \<open>1 - reward\<close>, and the count is the number of the
  arm's updates.
\<close>

theorem C4_thompson_identity:
  assumes "list_all bernoulli cs" and "ts_rewards_of arm cs \<noteq> []"
  shows "\<exists>a b c.
     map_of (alpha (fst (calls (TS_call bv) (TS_init, g0) cs))) arm = Some a \<and>
     map_of (beta_ts (fst (calls (TS_call bv) (TS_init, g0) cs))) arm = Some b \<and>
     map_of (total_count_ts (fst (calls (TS_call bv) (TS_init, g0) cs))) arm = Some c \<and>
     a + b = real_of_int c + 2 \<and>
     a = 1 + sum_list (ts_rewards_of arm cs) \<and>
     b = 1 + (\<Sum>r\<leftarrow>ts_rewards_of arm cs. 1 - r) \<and>
     c = int (length (ts_rewards_of arm cs))"
proof -
  have "(\<Sum>r\<leftarrow>rs. 1 - r) = real (length rs) - sum_list rs" for rs :: "real list"
    by (induction rs) auto
  then show ?thesis
    using TS_calls_tracks [of bv g0 cs] assms(2) by (simp add: ts_tracks_def)
qed

text \<open>
  The scenario of the specification: \<open>update("A", 1)\<close>, \<open>update("A", 1)\<close>,
  \<open>update("A", 0)\<close> (with a selection in between) gives \<open>alpha["A"] = 3\<close>,
  \<open>beta["A"] = 2\<close> and the count 3.
\<close>

theorem C4_thompson_identity_witness:
  "list_all bernoulli [Update_reward ''A'' 1, Update_reward ''A'' 1, Get_best_arm, Update_reward ''A'' 0] \<and>
   map_of (alpha (fst (calls (TS_call mean_sampler) (TS_init, 0)
     [Update_reward ''A'' 1, Update_reward ''A'' 1, Get_best_arm, Update_reward ''A'' 0]))) ''A'' = Some 3 \<and>
   map_of (beta_ts (fst (calls (TS_call mean_sampler) (TS_init, 0)
     [Update_reward ''A'' 1, Update_reward ''A'' 1, Get_best_arm, Update_reward ''A'' 0]))) ''A'' = Some 2 \<and>
   map_of (total_count_ts (fst (calls (TS_call mean_sampler) (TS_init, 0)
     [Update_reward ''A'' 1, Update_reward ''A'' 1, Get_best_arm, Update_reward ''A'' 0]))) ''A'' = Some 3"
proof -
  have h1: "list_all bernoulli
      [Update_reward ''A'' 1, Update_reward ''A'' 1, Get_best_arm, Update_reward ''A'' 0]"
    by (simp add: bernoulli_def)
  have h2: "ts_rewards_of ''A''
      [Update_reward ''A'' 1, Update_reward ''A'' 1, Get_best_arm, Update_reward ''A'' 0] \<noteq> []"
    by simp
  from C4_thompson_identity [OF h1 h2, of mean_sampler 0] h1 show ?thesis
    by auto
qed

subsection \<open>TS: selection\<close>

lemma spec_draws_last_drawn:
  "spec_draws bv g (s\<lparr>last_drawn := d\<rparr>) arms = spec_draws bv g s arms"
  by (induction arms arbitrary: g) (simp_all split: option.splits sum.splits prod.splits)

lemma spec_draws_Cons_InrE:
  assumes "spec_draws bv g s (arm # arms) = Inr (xs, g')"
  obtains a b x g1 xs' where "map_of (alpha s) arm = Some a" "map_of (beta_ts s) arm = Some b"
    "bv g a b = Inr (x, g1)" "spec_draws bv g1 s arms = Inr (xs', g')" "xs = x # xs'"
  using assms by (auto split: option.splits sum.splits prod.splits)

lemma TS_draw_loop_draws:
  assumes "spec_draws bv g s arms = Inr (xs, g')" and "distinct arms"
  shows "\<exists>s'. TS_draw_loop bv arms (s, g, best) = Done (s', g', foldl keep_best best (zip arms xs)) \<and>
     total_count_ts s' = total_count_ts s \<and> alpha s' = alpha s \<and> beta_ts s' = beta_ts s \<and>
     length xs = length arms \<and>
     (\<forall>arm. map_of (last_drawn s') arm =
        (case map_of (zip arms xs) arm of None \<Rightarrow> map_of (last_drawn s) arm | Some x \<Rightarrow> Some x))"
  using assms
proof (induction arms arbitrary: s g best xs)
  case Nil
  then show ?case by simp
next
  case (Cons arm arms)
  from Cons.prems(1) obtain a b x g1 xs' where
    ab: "map_of (alpha s) arm = Some a" "map_of (beta_ts s) arm = Some b"
    and bv: "bv g a b = Inr (x, g1)"
    and rest: "spec_draws bv g1 s arms = Inr (xs', g')" and xs: "xs = x # xs'"
    by (rule spec_draws_Cons_InrE)
  let ?s1 = "s\<lparr>last_drawn := setitem (last_drawn s) arm x\<rparr>"
  have rest1: "spec_draws bv g1 ?s1 arms = Inr (xs', g')"
    using rest by (simp add: spec_draws_last_drawn)
  from Cons.prems(2) have d: "distinct arms" and notin: "arm \<notin> set arms" by simp_all
  from Cons.IH [OF rest1 d, of "keep_best best (arm, x)"] obtain s' where
    s': "TS_draw_loop bv arms (?s1, g1, keep_best best (arm, x)) =
           Done (s', g', foldl keep_best (keep_best best (arm, x)) (zip arms xs'))"
      "total_count_ts s' = total_count_ts ?s1" "alpha s' = alpha ?s1" "beta_ts s' = beta_ts ?s1"
      "length xs' = length arms"
      "\<forall>arm'. map_of (last_drawn s') arm' =
        (case map_of (zip arms xs') arm' of None \<Rightarrow> map_of (last_drawn ?s1) arm' | Some x \<Rightarrow> Some x)"
    by blast
  have step: "TS_draw_loop bv (arm # arms) (s, g, best) =
      TS_draw_loop bv arms (?s1, g1, keep_best best (arm, x))"
    by (simp add: ab bv)
  have none: "map_of (zip arms xs') arm = None"
    using notin by (auto simp: map_of_eq_None_iff dest: set_zip_leftD)
  have ld: "map_of (last_drawn s') arm' =
        (case map_of (zip (arm # arms) xs) arm' of
           None \<Rightarrow> map_of (last_drawn s) arm' | Some x \<Rightarrow> Some x)" for arm'
    using s'(6) none by (cases "arm' = arm") (simp_all add: xs map_of_setitem split: option.splits)
  show ?case
    unfolding step
    by (rule exI [of _ s']) (simp add: s'(1-5) xs ld del: keep_best.simps)
qed

lemma keep_best_last_max:
  "((\<forall>q\<in>set ps. snd q < v) \<and> foldl keep_best (o', v) ps = (o', v)) \<or>
   (\<exists>pre arm x post. ps = pre @ (arm, x) # post \<and> foldl keep_best (o', v) ps = (Some arm, x) \<and>
      v \<le> x \<and> (\<forall>q\<in>set pre. snd q \<le> x) \<and> (\<forall>q\<in>set post. snd q < x))"
  (is "?L ps \<or> ?R ps")
proof (induction ps rule: rev_induct)
  case Nil
  show ?case by simp
next
  case (snoc p ps)
  obtain arm x where p: "p = (arm, x)" by (cases p)
  from snoc show ?case
  proof
    assume "?L ps"
    then have lt: "\<forall>q\<in>set ps. snd q < v" and f: "foldl keep_best (o', v) ps = (o', v)"
      by simp_all
    show ?thesis
    proof (cases "v \<le> x")
      case True
      have le: "\<forall>q\<in>set ps. snd q \<le> x" using lt True by fastforce
      have "?R (ps @ [p])"
        by (rule exI [of _ ps], rule exI [of _ arm], rule exI [of _ x], rule exI [of _ "[]"])
          (simp add: p f True le)
      then show ?thesis by (rule disjI2)
    next
      case False
      then have "?L (ps @ [p])"
        using lt by (simp add: f p)
      then show ?thesis by (rule disjI1)
    qed
  next
    assume "?R ps"
    then obtain pre arm' x' post where ps: "ps = pre @ (arm', x') # post"
      and f: "foldl keep_best (o', v) ps = (Some arm', x')"
      and v: "v \<le> x'" and pre: "\<forall>q\<in>set pre. snd q \<le> x'" and post: "\<forall>q\<in>set post. snd q < x'"
      by blast
    show ?thesis
    proof (cases "x' \<le> x")
      case True
      have le: "\<forall>q\<in>set ps. snd q \<le> x" using pre post True by (fastforce simp: ps)
      have vx: "v \<le> x" using v True by simp
      have "?R (ps @ [p])"
        by (rule exI [of _ ps], rule exI [of _ arm], rule exI [of _ x], rule exI [of _ "[]"])
          (simp add: p f True le vx)
      then show ?thesis by (rule disjI2)
    next
      case False
      have 1: "ps @ [p] = pre @ (arm', x') # (post @ [p])" by (simp add: ps)
      have 2: "foldl keep_best (o', v) (ps @ [p]) = (Some arm', x')"
        using False by (simp add: f p)
      have 3: "\<forall>q\<in>set (post @ [p]). snd q < x'" using post False by (auto simp: p)
      have "?R (ps @ [p])"
        by (intro exI conjI) (rule 1, rule 2, rule v, rule pre, rule 3)
      then show ?thesis by (rule disjI2)
    qed
  qed
qed

lemma spec_draws_returns:
  assumes "beta_sampler bv"
    and "\<forall>arm\<in>set arms. \<exists>a b. map_of (alpha s) arm = Some a \<and> map_of (beta_ts s) arm = Some b \<and>
           0 < a \<and> 0 < b"
  shows "\<exists>xs g'. spec_draws bv g s arms = Inr (xs, g') \<and> (\<forall>x\<in>set xs. 0 \<le> x)"
  using assms(2)
proof (induction arms arbitrary: g)
  case Nil
  show ?case by simp
next
  case (Cons arm arms)
  from Cons.prems obtain a b where
    ab: "map_of (alpha s) arm = Some a" "map_of (beta_ts s) arm = Some b" "0 < a" "0 < b"
    by auto
  with assms(1) obtain x g1 where x: "bv g a b = Inr (x, g1)" "0 \<le> x"
    unfolding beta_sampler_def by blast
  from Cons.prems have "\<forall>arm\<in>set arms. \<exists>a b. map_of (alpha s) arm = Some a \<and>
      map_of (beta_ts s) arm = Some b \<and> 0 < a \<and> 0 < b"
    by simp
  from Cons.IH [OF this, of g1] obtain xs g' where
    xs: "spec_draws bv g1 s arms = Inr (xs, g')" "\<forall>x\<in>set xs. 0 \<le> x"
    by blast
  show ?case
    by (rule exI [of _ "x # xs"], rule exI [of _ g']) (simp add: ab x xs)
qed

lemma bernoulli_rewards:
  "list_all bernoulli cs \<Longrightarrow> r \<in> set (ts_rewards_of arm cs) \<Longrightarrow> r = 0 \<or> r = 1"
  by (induction cs) (auto simp: bernoulli_def split: ts_call.splits if_splits)

lemma bernoulli_shapes:
  assumes "list_all bernoulli cs"
  shows "0 \<le> sum_list (ts_rewards_of arm cs) \<and> 0 \<le> (\<Sum>r\<leftarrow>ts_rewards_of arm cs. 1 - r)"
proof -
  have b: "\<forall>r\<in>set (ts_rewards_of arm cs). 0 \<le> r \<and> 0 \<le> 1 - r"
    using bernoulli_rewards [OF assms] by fastforce
  have "0 \<le> sum_list (ts_rewards_of arm cs)"
    using b by (simp add: sum_list_nonneg)
  moreover have "0 \<le> (\<Sum>r\<leftarrow>ts_rewards_of arm cs. 1 - r)"
    by (rule sum_list_nonneg) (use b in auto)
  ultimately show ?thesis by simp
qed

lemma TS_get_best_arm_spec:
  assumes draws: "spec_draws bv g s (map fst (total_count_ts s)) = Inr (xs, g')"
    and nonneg: "\<forall>x\<in>set xs. 0 \<le> x"
    and dist: "distinct (map fst (total_count_ts s))"
  shows "\<exists>s'.
     length xs = length (total_count_ts s) \<and>
     (\<forall>p\<in>set (zip (map fst (total_count_ts s)) xs). TS_get_last_drawn_value s' (fst p) = snd p) \<and>
     total_count_ts s' = total_count_ts s \<and> alpha s' = alpha s \<and> beta_ts s' = beta_ts s \<and>
     (if total_count_ts s = [] then TS_get_best_arm bv g s = (Inr (None, None), s', g')
      else \<exists>pre arm x post. zip (map fst (total_count_ts s)) xs = pre @ (arm, x) # post \<and>
             TS_get_best_arm bv g s = (Inr (Some arm, Some x), s', g') \<and>
             (\<forall>q\<in>set pre. snd q \<le> x) \<and> (\<forall>q\<in>set post. snd q < x))"
proof -
  let ?arms = "map fst (total_count_ts s)"
  from TS_draw_loop_draws [OF draws dist, of "(None, 0)"] obtain s' where
    loop: "TS_draw_loop bv ?arms (s, g, (None, 0)) = Done (s', g', foldl keep_best (None, 0) (zip ?arms xs))"
    and frame: "total_count_ts s' = total_count_ts s" "alpha s' = alpha s" "beta_ts s' = beta_ts s"
    and len: "length xs = length ?arms"
    and ld: "\<forall>arm. map_of (last_drawn s') arm =
        (case map_of (zip ?arms xs) arm of None \<Rightarrow> map_of (last_drawn s) arm | Some x \<Rightarrow> Some x)"
    by blast
  have dz: "distinct (map fst (zip ?arms xs))"
    using dist len by (simp add: map_fst_zip del: map_map)
  have stored: "\<forall>p\<in>set (zip ?arms xs). TS_get_last_drawn_value s' (fst p) = snd p"
  proof
    fix p assume "p \<in> set (zip ?arms xs)"
    then have "map_of (zip ?arms xs) (fst p) = Some (snd p)"
      using dz by (simp add: map_of_is_SomeI del: map_map)
    then show "TS_get_last_drawn_value s' (fst p) = snd p"
      using ld by (simp add: TS_get_last_drawn_value_def)
  qed
  have res: "if total_count_ts s = [] then TS_get_best_arm bv g s = (Inr (None, None), s', g')
      else \<exists>pre arm x post. zip ?arms xs = pre @ (arm, x) # post \<and>
             TS_get_best_arm bv g s = (Inr (Some arm, Some x), s', g') \<and>
             (\<forall>q\<in>set pre. snd q \<le> x) \<and> (\<forall>q\<in>set post. snd q < x)"
  proof (cases "total_count_ts s = []")
    case True
    then show ?thesis using loop by (simp add: TS_get_best_arm_def)
  next
    case False
    then obtain arm0 x0 where in0: "(arm0, x0) \<in> set (zip ?arms xs)"
      using len by (cases "total_count_ts s"; cases xs) auto
    then have "0 \<le> x0" using nonneg by (auto dest: set_zip_rightD)
    with in0 have "\<not> (\<forall>q\<in>set (zip ?arms xs). snd q < 0)" by force
    with keep_best_last_max [of "zip ?arms xs" 0 None] obtain pre arm x post where
      dec: "zip ?arms xs = pre @ (arm, x) # post"
        "foldl keep_best (None, 0) (zip ?arms xs) = (Some arm, x)"
        "\<forall>q\<in>set pre. snd q \<le> x" "\<forall>q\<in>set post. snd q < x"
      by blast
    have "TS_get_best_arm bv g s = (Inr (Some arm, Some x), s', g')"
      by (simp add: TS_get_best_arm_def loop dec(2))
    with dec(1,3,4) show ?thesis using False by auto
  qed
  show ?thesis
    by (rule exI [of _ s']) (use len stored frame res in simp)
qed

text \<open>
  Claim C2, amended. Let a \<open>TS\<close> object be reached from the constructor by calls with
  rewards 0 or 1, and let the sampler return, on positive shape parameters, a value between
  0 and 1. Then \<open>get_best_arm\<close> returns; it draws one sample for every arm of
  \<open>total_count\<close>, in traversal order, at the arm's \<open>alpha\<close> and \<open>beta\<close>; afterwards
  \<open>last_drawn\<close> holds each arm's sample and the other fields are unchanged; with no arm
  the result is \<open>(None, None)\<close>, and otherwise it is an arm and its sample such that no
  arm before it has a greater sample and every arm after it has a smaller one: the maximum,
  and among equal maxima the last in traversal order.
\<close>

theorem C2_thompson_selection:
  assumes "beta_sampler bv" and "list_all bernoulli cs"
    and "calls (TS_call bv) (TS_init, g0) cs = (s, g)"
  shows "\<exists>xs g' s'.
     spec_draws bv g s (map fst (total_count_ts s)) = Inr (xs, g') \<and>
     length xs = length (total_count_ts s) \<and>
     (\<forall>p\<in>set (zip (map fst (total_count_ts s)) xs). TS_get_last_drawn_value s' (fst p) = snd p) \<and>
     total_count_ts s' = total_count_ts s \<and> alpha s' = alpha s \<and> beta_ts s' = beta_ts s \<and>
     (if total_count_ts s = [] then TS_get_best_arm bv g s = (Inr (None, None), s', g')
      else \<exists>pre arm x post. zip (map fst (total_count_ts s)) xs = pre @ (arm, x) # post \<and>
             TS_get_best_arm bv g s = (Inr (Some arm, Some x), s', g') \<and>
             (\<forall>q\<in>set pre. snd q \<le> x) \<and> (\<forall>q\<in>set post. snd q < x))"
proof -
  have tr: "ts_tracks s cs"
    using TS_calls_tracks [of bv g0 cs] by (simp add: assms(3))
  then have dist: "distinct (map fst (total_count_ts s))"
    by (simp add: ts_tracks_def)
  have shapes: "\<forall>arm\<in>set (map fst (total_count_ts s)).
      \<exists>a b. map_of (alpha s) arm = Some a \<and> map_of (beta_ts s) arm = Some b \<and> 0 < a \<and> 0 < b"
  proof
    fix arm assume "arm \<in> set (map fst (total_count_ts s))"
    then have "map_of (total_count_ts s) arm \<noteq> None"
      by (simp add: map_of_eq_None_iff)
    then have ne: "ts_rewards_of arm cs \<noteq> []"
      using tr by (auto simp: ts_tracks_def)
    then have "map_of (alpha s) arm = Some (1 + sum_list (ts_rewards_of arm cs))"
      and "map_of (beta_ts s) arm = Some (1 + (\<Sum>r\<leftarrow>ts_rewards_of arm cs. 1 - r))"
      using tr by (simp_all add: ts_tracks_def)
    moreover have "0 < 1 + sum_list (ts_rewards_of arm cs)"
      and "0 < 1 + (\<Sum>r\<leftarrow>ts_rewards_of arm cs. 1 - r)"
      using bernoulli_shapes [OF assms(2), of arm] by linarith+
    ultimately show "\<exists>a b. map_of (alpha s) arm = Some a \<and> map_of (beta_ts s) arm = Some b \<and>
        0 < a \<and> 0 < b"
      by blast
  qed
  from spec_draws_returns [OF assms(1) shapes, of g] obtain xs g' where
    draws: "spec_draws bv g s (map fst (total_count_ts s)) = Inr (xs, g')"
    and nonneg: "\<forall>x\<in>set xs. 0 \<le> x"
    by blast
  from TS_get_best_arm_spec [OF draws nonneg dist] draws show ?thesis
    by blast
qed

lemma two_arms_reached:
  "calls (TS_call mean_sampler) (TS_init, 0)
     [Update_reward ''A'' 1, Update_reward ''B'' 0, Update_reward ''B'' 1] = (two_arms, 0)"
  by (simp add: two_arms_def TS_init_def TS_update_reward_def contains_def Let_def)

lemma beta_sampler_mean: "beta_sampler mean_sampler"
  by (simp add: beta_sampler_def mean_sampler_def)

text \<open>
  With the sampler that returns the mean, \<open>"A"\<close> draws \<open>2/3\<close> and \<open>"B"\<close> draws \<open>1/2\<close>:
  the result is \<open>("A", 2/3)\<close>, after two draws.
\<close>

theorem C2_thompson_selection_witness:
  "beta_sampler mean_sampler \<and>
   list_all bernoulli [Update_reward ''A'' 1, Update_reward ''B'' 0, Update_reward ''B'' 1] \<and>
   calls (TS_call mean_sampler) (TS_init, 0)
     [Update_reward ''A'' 1, Update_reward ''B'' 0, Update_reward ''B'' 1] = (two_arms, 0) \<and>
   fst (TS_get_best_arm mean_sampler 0 two_arms) = Inr (Some ''A'', Some (2 / 3)) \<and>
   TS_get_last_drawn_value (fst (snd (TS_get_best_arm mean_sampler 0 two_arms))) ''A'' = 2 / 3 \<and>
   TS_get_last_drawn_value (fst (snd (TS_get_best_arm mean_sampler 0 two_arms))) ''B'' = 1 / 2 \<and>
   snd (snd (TS_get_best_arm mean_sampler 0 two_arms)) = 2"
proof -
  have h2: "list_all bernoulli
      [Update_reward ''A'' 1, Update_reward ''B'' 0, Update_reward ''B'' (1::real)]"
    by (simp add: bernoulli_def)
  have arms: "map fst (total_count_ts two_arms) = [''A'', ''B'']" "total_count_ts two_arms \<noteq> []"
    by (simp_all add: two_arms_def)
  have draws: "spec_draws mean_sampler 0 two_arms [''A'', ''B''] = Inr ([2 / 3, 1 / 2], 2)"
    by (simp add: two_arms_def mean_sampler_def)
  from C2_thompson_selection [OF beta_sampler_mean h2 two_arms_reached]
  obtain xs g' s' where
    c: "spec_draws mean_sampler 0 two_arms (map fst (total_count_ts two_arms)) = Inr (xs, g')"
      "\<forall>p\<in>set (zip (map fst (total_count_ts two_arms)) xs). TS_get_last_drawn_value s' (fst p) = snd p"
      "if total_count_ts two_arms = [] then TS_get_best_arm mean_sampler 0 two_arms = (Inr (None, None), s', g')
       else \<exists>pre arm x post. zip (map fst (total_count_ts two_arms)) xs = pre @ (arm, x) # post \<and>
             TS_get_best_arm mean_sampler 0 two_arms = (Inr (Some arm, Some x), s', g') \<and>
             (\<forall>q\<in>set pre. snd q \<le> x) \<and> (\<forall>q\<in>set post. snd q < x)"
    by blast
  from c(1) have xs: "xs = [2 / 3, 1 / 2]" and g': "g' = 2"
    unfolding arms draws by simp_all
  from c(3) arms(2) have "\<exists>pre arm x post.
      [(''A'', 2 / 3), (''B'', 1 / 2)] = pre @ (arm, x) # post \<and>
      TS_get_best_arm mean_sampler 0 two_arms = (Inr (Some arm, Some x), s', g') \<and>
      (\<forall>q\<in>set pre. snd q \<le> x) \<and> (\<forall>q\<in>set post. snd q < x)"
    unfolding arms(1) xs by simp
  then obtain pre arm x post where
    d: "[(''A'', 2 / 3), (''B'', 1 / 2)] = pre @ (arm, x) # post"
      "TS_get_best_arm mean_sampler 0 two_arms = (Inr (Some arm, Some x), s', g')"
      "\<forall>q\<in>set pre. snd q \<le> x" "\<forall>q\<in>set post. snd q < (x::real)"
    by blast
  from d(1,3,4) have "arm = ''A'' \<and> x = 2 / 3"
    by (auto simp: Cons_eq_append_conv)
  with d(2) c(2) show ?thesis
    unfolding arms xs g'
    using beta_sampler_mean h2 two_arms_reached by simp
qed

text \<open>
  Claim C2 as stated fails on the tie rule. Both arms draw \<open>2/3\<close>; \<open>"A"\<close> is first in
  traversal order, and the comparison \<open>>=\<close> lets the equal sample of \<open>"B"\<close> replace it:
  the result is \<open>"B"\<close>.
\<close>

theorem C2_tie_counterexample:
  "calls (TS_call mean_sampler) (TS_init, 0) [Update_reward ''A'' 1, Update_reward ''B'' 1] =
     (tied_arms, 0) \<and>
   map fst (total_count_ts tied_arms) = [''A'', ''B''] \<and>
   TS_get_last_drawn_value (fst (snd (TS_get_best_arm mean_sampler 0 tied_arms))) ''A'' = 2 / 3 \<and>
   TS_get_last_drawn_value (fst (snd (TS_get_best_arm mean_sampler 0 tied_arms))) ''B'' = 2 / 3 \<and>
   fst (TS_get_best_arm mean_sampler 0 tied_arms) = Inr (Some ''B'', Some (2 / 3)) \<and>
   fst (TS_get_best_arm mean_sampler 0 tied_arms) \<noteq> Inr (Some ''A'', Some (2 / 3))"
  by (simp add: tied_arms_def TS_init_def TS_update_reward_def contains_def Let_def
      TS_get_best_arm_def mean_sampler_def TS_get_last_drawn_value_def)

subsection \<open>MAB: selection\<close>

lemma max_item_first_max:
  "\<exists>pre arm v post. m # d = pre @ (arm, v) # post \<and> max_item m d = (arm, v) \<and>
     (\<forall>q\<in>set pre. snd q < v) \<and> (\<forall>q\<in>set post. snd q \<le> v)"
proof (induction d arbitrary: m)
  case Nil
  have "[m] = [] @ (fst m, snd m) # []" by simp
  then show ?case by (intro exI conjI) (assumption, simp_all)
next
  case (Cons p d)
  show ?case
  proof (cases "snd p > snd m")
    case True
    from Cons [of p] obtain pre arm v post where
      ih: "p # d = pre @ (arm, v) # post" "max_item p d = (arm, v)"
        "\<forall>q\<in>set pre. snd q < v" "\<forall>q\<in>set post. snd q \<le> v"
      by blast
    have pv: "snd p \<le> v"
      using ih(1,3) by (cases pre) auto
    have 1: "m # p # d = (m # pre) @ (arm, v) # post" by (simp add: ih(1))
    have 2: "max_item m (p # d) = (arm, v)" using True by (simp add: ih(2))
    have 3: "\<forall>q\<in>set (m # pre). snd q < v" using ih(3) True pv by auto
    show ?thesis
      by (intro exI conjI) (rule 1, rule 2, rule 3, rule ih(4))
  next
    case False
    from Cons [of m] obtain pre arm v post where
      ih: "m # d = pre @ (arm, v) # post" "max_item m d = (arm, v)"
        "\<forall>q\<in>set pre. snd q < v" "\<forall>q\<in>set post. snd q \<le> v"
      by blast
    have 2: "max_item m (p # d) = (arm, v)" using False by (simp add: ih(2))
    show ?thesis
    proof (cases pre)
      case Nil
      then have m: "m = (arm, v)" and d: "d = post" using ih(1) by simp_all
      have 1: "m # p # d = [] @ (arm, v) # (p # post)" by (simp add: m d)
      have 3: "\<forall>q\<in>set []. snd q < v" by simp
      have 4: "\<forall>q\<in>set (p # post). snd q \<le> v" using ih(4) False by (auto simp: m)
      show ?thesis
        by (intro exI conjI) (rule 1, rule 2, rule 3, rule 4)
    next
      case (Cons q pre')
      then have q: "q = m" and d: "d = pre' @ (arm, v) # post" using ih(1) by simp_all
      have mv: "snd m < v" using ih(3) by (simp add: Cons q)
      have 1: "m # p # d = (m # p # pre') @ (arm, v) # post" by (simp add: d)
      have 3: "\<forall>q\<in>set (m # p # pre'). snd q < v"
        using ih(3) mv False by (auto simp: Cons)
      show ?thesis
        by (intro exI conjI) (rule 1, rule 2, rule 3, rule ih(4))
    qed
  qed
qed

lemma MAB_update_reward_distinct:
  assumes "distinct (map fst (average_reward s))"
  shows "distinct (map fst (average_reward (state_of (MAB_update_reward s a r))))"
  using assms
  by (simp add: MAB_update_reward_def Let_def distinct_setitem split: option.splits)

lemma MAB_calls_distinct:
  assumes "average_reward s0 = []"
  shows "distinct (map fst (average_reward (calls MAB_step s0 us)))"
proof (induction us rule: rev_induct)
  case Nil
  show ?case by (simp add: assms)
next
  case (snoc u us)
  obtain a r where u: "u = (a, r)" by (cases u)
  from MAB_update_reward_distinct [OF snoc, of a r] show ?case
    by (simp add: calls_snoc u)
qed

lemma mab_tracks_known:
  assumes "mab_tracks s us"
  shows "average_reward s = [] \<longleftrightarrow> us = []"
proof
  assume "average_reward s = []"
  show "us = []"
  proof (cases us)
    case (Cons u us')
    then have "rewards_of (fst u) us \<noteq> []" by (simp add: rewards_of_def)
    then have "map_of (average_reward s) (fst u) \<noteq> None"
      using assms by (simp add: mab_tracks_def)
    then show ?thesis using \<open>average_reward s = []\<close> by simp
  qed simp
next
  assume "us = []"
  then have "\<forall>arm. map_of (average_reward s) arm = None"
    using assms by (simp add: mab_tracks_def rewards_of_def)
  then show "average_reward s = []"
    by (cases "average_reward s") (auto split: if_splits)
qed

text \<open>
  Claim C9. After any sequence of updates of a fresh \<open>MAB\<close> object, \<open>get_best_arm\<close>
  returns \<open>(None, None)\<close> exactly when the sequence is empty. Otherwise it returns an item
  \<open>(arm, v)\<close> of \<open>average_reward\<close> such that every item before it in traversal order has a
  smaller estimate and no item after it has a greater one (the maximum, and among equal
  maxima the first), and \<open>v\<close> is \<open>get_reward(arm)\<close>.
\<close>

theorem C9_best_arm:
  "(MAB_get_best_arm (calls MAB_step (MAB_init :: 'a mab) us) = (None, None) \<longleftrightarrow> us = []) \<and>
   (us \<noteq> [] \<longrightarrow>
     (\<exists>pre arm v post.
        average_reward (calls MAB_step (MAB_init :: 'a mab) us) = pre @ (arm, v) # post \<and>
        MAB_get_best_arm (calls MAB_step (MAB_init :: 'a mab) us) = (Some arm, Some v) \<and>
        (\<forall>q\<in>set pre. snd q < v) \<and> (\<forall>q\<in>set post. snd q \<le> v) \<and>
        MAB_get_reward (calls MAB_step (MAB_init :: 'a mab) us) arm = v))"
proof -
  let ?s = "calls MAB_step (MAB_init :: 'a mab) us"
  have tr: "mab_tracks ?s us"
    using MAB_calls_tracks [OF mab_tracks_init] by blast
  have known: "average_reward ?s = [] \<longleftrightarrow> us = []"
    by (rule mab_tracks_known [OF tr])
  have dist: "distinct (map fst (average_reward ?s))"
    by (rule MAB_calls_distinct) (simp add: MAB_init_def)
  have none: "MAB_get_best_arm ?s = (None, None) \<longleftrightarrow> us = []"
    using known by (cases "average_reward ?s") (simp_all add: MAB_get_best_arm_def Let_def)
  have some: "\<exists>pre arm v post.
        average_reward ?s = pre @ (arm, v) # post \<and>
        MAB_get_best_arm ?s = (Some arm, Some v) \<and>
        (\<forall>q\<in>set pre. snd q < v) \<and> (\<forall>q\<in>set post. snd q \<le> v) \<and>
        MAB_get_reward ?s arm = v" if "us \<noteq> []"
  proof -
    from that known obtain m d where md: "average_reward ?s = m # d"
      by (cases "average_reward ?s") auto
    from max_item_first_max [of m d] obtain pre arm v post where
      mx: "m # d = pre @ (arm, v) # post" "max_item m d = (arm, v)"
        "\<forall>q\<in>set pre. snd q < v" "\<forall>q\<in>set post. snd q \<le> v"
      by blast
    have 1: "average_reward ?s = pre @ (arm, v) # post" by (simp add: md mx(1))
    have 2: "MAB_get_best_arm ?s = (Some arm, Some v)"
      by (simp add: MAB_get_best_arm_def md mx(2))
    have "arm \<notin> fst ` set pre" using dist unfolding 1 by auto
    then have "map_of (pre @ (arm, v) # post) arm = Some v"
      by (simp add: map_add_Some_iff map_of_eq_None_iff)
    then have 5: "MAB_get_reward ?s arm = v"
      by (simp add: MAB_get_reward_def 1)
    show ?thesis
      by (intro exI conjI) (rule 1, rule 2, rule mx(3), rule mx(4), rule 5)
  qed
  show ?thesis using none some by blast
qed

text \<open>
  Estimates \<open>1/2\<close> for \<open>"A"\<close>, then \<open>1\<close> for \<open>"B"\<close> and for \<open>"C"\<close>: the result is \<open>"B"\<close>, the
  first of the two maxima.
\<close>

theorem C9_best_arm_witness:
  "[(''A'', 1), (''B'', 1), (''A'', 0), (''C'', 1)] \<noteq> ([] :: (string \<times> real) list) \<and>
   average_reward (calls MAB_step MAB_init [(''A'', 1), (''B'', 1), (''A'', 0), (''C'', 1)]) =
     [(''A'', 1 / 2), (''B'', 1), (''C'', 1)] \<and>
   MAB_get_best_arm (calls MAB_step MAB_init [(''A'', 1), (''B'', 1), (''A'', 0), (''C'', 1)]) =
     (Some ''B'', Some 1)"
proof -
  have avg: "average_reward (calls MAB_step MAB_init [(''A'', 1), (''B'', 1), (''A'', 0), (''C'', 1)]) =
     [(''A'', 1 / 2), (''B'', 1), (''C'', 1)]"
    by (simp add: MAB_init_def MAB_update_reward_def contains_def Let_def)
  from C9_best_arm [of "[(''A'', 1), (''B'', 1), (''A'', 0), (''C'', 1)]"]
  obtain pre arm v post where
    d: "[(''A'', 1 / 2), (''B'', 1), (''C'', 1)] = pre @ (arm, v) # post"
      "MAB_get_best_arm (calls MAB_step MAB_init [(''A'', 1), (''B'', 1), (''A'', 0), (''C'', 1)]) =
         (Some arm, Some v)"
      "\<forall>q\<in>set pre. snd q < v" "\<forall>q\<in>set post. snd q \<le> (v::real)"
    unfolding avg by blast
  from d(1,3,4) have "arm = ''B'' \<and> v = 1"
    by (auto simp: Cons_eq_append_conv)
  with d(2) avg show ?thesis by simp
qed

subsection \<open>Arms and contexts that were never updated\<close>

lemma mab_tracks_softmax_init: "mab_tracks (SoftMax_init t :: 'a softmax) []"
  by (simp add: mab_tracks_def SoftMax_init_def rewards_of_def)

text \<open>
  Claim C5. In each of the four policies, \<open>get_reward\<close> on an arm that no call of
  \<open>update_reward\<close> has named returns 0, after any sequence of calls on a fresh object
  (\<open>UCB1\<close> and \<open>SoftMax\<close> inherit \<open>MAB.get_reward\<close>); and \<open>get_best_arm\<close> on a fresh object
  returns \<open>(None, None)\<close> (\<open>UCB1\<close> inherits \<open>MAB.get_best_arm\<close>; that of \<open>TS\<close> leaves the
  object and the generator as they were, and that of \<open>SoftMax\<close> the generator).
\<close>

theorem C5_unseen_defaults:
  "(rewards_of arm us = [] \<longrightarrow>
      MAB_get_reward (calls MAB_step (MAB_init :: 'a mab) us) arm = 0) \<and>
   (rewards_of arm us = [] \<longrightarrow>
      MAB_get_reward (calls UCB1_step (UCB1_init b :: 'a ucb1) us) arm = 0) \<and>
   (rewards_of arm us = [] \<longrightarrow>
      MAB_get_reward (calls MAB_step (SoftMax_init t :: 'a softmax) us) arm = 0) \<and>
   (ts_rewards_of arm cs = [] \<longrightarrow>
      TS_get_reward (fst (calls (TS_call bv) (TS_init :: 'a ts, g0) cs)) arm = Inr 0) \<and>
   MAB_get_best_arm (MAB_init :: 'a mab) = (None, None) \<and>
   MAB_get_best_arm (UCB1_init b :: 'a ucb1) = (None, None) \<and>
   SoftMax_get_best_arm choices g (SoftMax_init t :: 'a softmax) = (Inr (None, None), g) \<and>
   TS_get_best_arm bv g (TS_init :: 'a ts) = (Inr (None, None), TS_init, g)"
proof -
  have "mab_tracks (calls MAB_step (MAB_init :: 'a mab) us) us"
    using MAB_calls_tracks [OF mab_tracks_init] by blast
  then have 1: "rewards_of arm us = [] \<longrightarrow>
      MAB_get_reward (calls MAB_step (MAB_init :: 'a mab) us) arm = 0"
    by (simp add: mab_tracks_def MAB_get_reward_def)
  have 2: "rewards_of arm us = [] \<longrightarrow>
      MAB_get_reward (calls UCB1_step (UCB1_init b :: 'a ucb1) us) arm = 0"
    using UCB1_calls_tracks [of b us] by (simp add: ucb_tracks_def MAB_get_reward_def)
  have "mab_tracks (calls MAB_step (SoftMax_init t :: 'a softmax) us) us"
    using MAB_calls_tracks [OF mab_tracks_softmax_init] by blast
  then have 3: "rewards_of arm us = [] \<longrightarrow>
      MAB_get_reward (calls MAB_step (SoftMax_init t :: 'a softmax) us) arm = 0"
    by (simp add: mab_tracks_def MAB_get_reward_def)
  have 4: "ts_rewards_of arm cs = [] \<longrightarrow>
      TS_get_reward (fst (calls (TS_call bv) (TS_init :: 'a ts, g0) cs)) arm = Inr 0"
    using TS_calls_tracks [of bv g0 cs] by (simp add: ts_tracks_def TS_get_reward_def contains_def)
  have 5: "MAB_get_best_arm (MAB_init :: 'a mab) = (None, None)"
    by (simp add: MAB_get_best_arm_def MAB_init_def)
  have 6: "MAB_get_best_arm (UCB1_init b :: 'a ucb1) = (None, None)"
    by (simp add: MAB_get_best_arm_def UCB1_init_def)
  have 7: "SoftMax_get_best_arm choices g (SoftMax_init t :: 'a softmax) = (Inr (None, None), g)"
    by (simp add: SoftMax_get_best_arm_def SoftMax_init_def)
  have 8: "TS_get_best_arm bv g (TS_init :: 'a ts) = (Inr (None, None), TS_init, g)"
    by (simp add: TS_get_best_arm_def TS_init_def)
  from 1 2 3 4 5 6 7 8 show ?thesis by blast
qed

text \<open>
  Each policy after updates of \<open>"A"\<close> only, read at \<open>"B"\<close>; the \<open>UCB1\<close> object has a
  negative \<open>beta\<close>, so its second update raises.
\<close>

theorem C5_unseen_defaults_witness:
  "rewards_of ''B'' [(''A'', 1), (''A'', 3)] = [] \<and>
   MAB_get_reward (calls MAB_step MAB_init [(''A'', 1), (''A'', 3)]) ''B'' = 0 \<and>
   MAB_get_reward (calls UCB1_step (UCB1_init (- 1)) [(''A'', 1), (''A'', 3)]) ''B'' = 0 \<and>
   MAB_get_reward (calls MAB_step (SoftMax_init 1) [(''A'', 1), (''A'', 3)]) ''B'' = 0 \<and>
   ts_rewards_of ''B'' [Update_reward ''A'' 1, Get_best_arm] = [] \<and>
   TS_get_reward (fst (calls (TS_call mean_sampler) (TS_init, 0)
     [Update_reward ''A'' 1, Get_best_arm])) ''B'' = Inr 0"
  using C5_unseen_defaults [of "''B''" "[(''A'', 1), (''A'', 3)]" "- 1" 1
      "[Update_reward ''A'' 1, Get_best_arm]" mean_sampler 0]
  by (simp add: rewards_of_def)

lemma CMAB_update_reward_other:
  assumes "x \<noteq> y"
  shows "map_of (mab (state_of (CMAB_update_reward s a r x))) y = map_of (mab s) y"
  using assms
  by (simp add: CMAB_update_reward_def Let_def contains_def map_of_setitem
      split: option.splits outcome.splits)

lemma CMAB_calls_other:
  assumes "\<forall>u\<in>set us. snd (snd u) \<noteq> y"
  shows "map_of (mab (calls CMAB_step s us)) y = map_of (mab s) y"
  using assms
proof (induction us rule: rev_induct)
  case Nil
  show ?case by simp
next
  case (snoc u us)
  obtain a r x where u: "u = (a, r, x)" by (cases u)
  from snoc.prems have x: "x \<noteq> y" and rest: "\<forall>u\<in>set us. snd (snd u) \<noteq> y"
    by (simp_all add: u)
  show ?case
    using CMAB_update_reward_other [OF x, of "calls CMAB_step s us" a r] snoc.IH [OF rest]
    by (simp add: calls_snoc u)
qed

text \<open>
  Claim C7. If the context \<open>y\<close> is not in \<open>mab\<close>, then \<open>get_reward(a', y)\<close> is 0 and
  \<open>get_best_arm(y)\<close> is \<open>(None, None)\<close> (both methods assign nothing, so they create no
  state); and after \<open>update_reward(a, r, x)\<close> with \<open>x\<close> different from \<open>y\<close>, whether it
  returned or raised, \<open>y\<close> is still not in \<open>mab\<close> and both results are the same. So it
  is after any sequence of updates of a fresh object, none of them under \<open>y\<close>.
\<close>

theorem C7_context_isolation:
  "(\<not> contains (mab (s :: ('c, 'a) cmab)) y \<longrightarrow>
      CMAB_get_reward s a' y = 0 \<and> CMAB_get_best_arm s y = (None, None)) \<and>
   (x \<noteq> y \<and> \<not> contains (mab s) y \<longrightarrow>
      \<not> contains (mab (state_of (CMAB_update_reward s a r x))) y \<and>
      CMAB_get_reward (state_of (CMAB_update_reward s a r x)) a' y = 0 \<and>
      CMAB_get_best_arm (state_of (CMAB_update_reward s a r x)) y = (None, None)) \<and>
   ((\<forall>u\<in>set us. snd (snd u) \<noteq> y) \<longrightarrow>
      \<not> contains (mab (calls CMAB_step CMAB_init us)) y \<and>
      CMAB_get_reward (calls CMAB_step CMAB_init us) a' y = 0 \<and>
      CMAB_get_best_arm (calls CMAB_step CMAB_init us) y = (None, None))"
proof -
  have unknown: "CMAB_get_reward s a' y = 0 \<and> CMAB_get_best_arm s y = (None, None)"
    if "map_of (mab s) y = None" for s :: "('c, 'a) cmab"
    using that by (simp add: CMAB_get_reward_def CMAB_get_best_arm_def)
  have 1: "\<not> contains (mab s) y \<longrightarrow>
      CMAB_get_reward s a' y = 0 \<and> CMAB_get_best_arm s y = (None, None)"
    using unknown [of s] by (simp add: contains_def)
  have 2: "x \<noteq> y \<and> \<not> contains (mab s) y \<longrightarrow>
      \<not> contains (mab (state_of (CMAB_update_reward s a r x))) y \<and>
      CMAB_get_reward (state_of (CMAB_update_reward s a r x)) a' y = 0 \<and>
      CMAB_get_best_arm (state_of (CMAB_update_reward s a r x)) y = (None, None)"
  proof
    assume h: "x \<noteq> y \<and> \<not> contains (mab s) y"
    then have "map_of (mab (state_of (CMAB_update_reward s a r x))) y = None"
      using CMAB_update_reward_other [of x y s a r] by (simp add: contains_def)
    then show "\<not> contains (mab (state_of (CMAB_update_reward s a r x))) y \<and>
      CMAB_get_reward (state_of (CMAB_update_reward s a r x)) a' y = 0 \<and>
      CMAB_get_best_arm (state_of (CMAB_update_reward s a r x)) y = (None, None)"
      using unknown [of "state_of (CMAB_update_reward s a r x)"] by (simp add: contains_def)
  qed
  have 3: "(\<forall>u\<in>set us. snd (snd u) \<noteq> y) \<longrightarrow>
      \<not> contains (mab (calls CMAB_step CMAB_init us)) y \<and>
      CMAB_get_reward (calls CMAB_step CMAB_init us) a' y = 0 \<and>
      CMAB_get_best_arm (calls CMAB_step CMAB_init us) y = (None, None)"
  proof
    assume "\<forall>u\<in>set us. snd (snd u) \<noteq> y"
    from CMAB_calls_other [OF this, of CMAB_init]
    have "map_of (mab (calls CMAB_step (CMAB_init :: ('c, 'a) cmab) us)) y = None"
      by (simp add: CMAB_init_def)
    then show "\<not> contains (mab (calls CMAB_step CMAB_init us)) y \<and>
      CMAB_get_reward (calls CMAB_step CMAB_init us) a' y = 0 \<and>
      CMAB_get_best_arm (calls CMAB_step CMAB_init us) y = (None, None)"
      using unknown [of "calls CMAB_step CMAB_init us"] by (simp add: contains_def)
  qed
  from 1 2 3 show ?thesis by blast
qed

text \<open>
  The scenario of the specification: after \<open>update_reward("a", 1, "x")\<close> on a fresh object,
  \<open>get_reward("a", "y")\<close> is still 0, while \<open>get_reward("a", "x")\<close> is 1.
\<close>

theorem C7_context_isolation_witness:
  "''x'' \<noteq> ''y'' \<and> \<not> contains (mab (CMAB_init :: (string, string) cmab)) ''y'' \<and>
   CMAB_get_reward (state_of (CMAB_update_reward CMAB_init ''a'' 1 ''x'')) ''a'' ''y'' = 0 \<and>
   CMAB_get_best_arm
     (state_of (CMAB_update_reward (CMAB_init :: (string, string) cmab) ''a'' 1 ''x'')) ''y'' =
     (None, None) \<and>
   CMAB_get_reward (state_of (CMAB_update_reward CMAB_init ''a'' 1 ''x'')) ''a'' ''x'' = 1"
proof -
  have h: "''x'' \<noteq> ''y'' \<and> \<not> contains (mab (CMAB_init :: (string, string) cmab)) ''y''"
    by (simp add: CMAB_init_def contains_def)
  have x: "CMAB_get_reward (state_of (CMAB_update_reward CMAB_init ''a'' 1 ''x'')) ''a'' ''x'' = 1"
    by (simp add: CMAB_init_def CMAB_update_reward_def CMAB_get_reward_def contains_def Let_def
        UCB1_init_def UCB1_update_reward_def MAB_get_reward_def)
  from C7_context_isolation [of CMAB_init "''y''" "''a''" "''x''" "''a''" 1 "[]"] h x
  show ?thesis by simp
qed

subsection \<open>SoftMax: the distribution\<close>






















subsection \<open>TS: rewards computed in floats\<close>





















end
